theory Spec2Isabelle
  imports Complex_Main "HOL-Library.Word"
begin

unbundle bit_operations_syntax

section \<open>Python values and exceptions\<close>

text \<open>
  Python values carried by an exception, and the exceptions the modelled code can raise.
  \<^verbatim>\<open>BadWsHttpResponse(field, expected, got)\<close> is the handshake error (its class is
  imported from the package's exceptions module).
\<close>

datatype pyval = PyInt int | PyStr string

datatype py_error = IndexError | ValueError | OverflowError | AttributeError | RuntimeError
  | TypeError | UnicodeDecodeError | BadWsHttpResponse string pyval pyval

text \<open>A Python number that may be \<^verbatim>\<open>float('inf')\<close>.\<close>

datatype 'a ext = Fin 'a | PosInf

section \<open>Frame codec (snakecord/connection.py, class WebsocketFrame)\<close>

type_synonym byte = "8 word"

text \<open>
  \<^verbatim>\<open>apply_mask(mask, data)\<close> runs \<^verbatim>\<open>data[i] ^= mask[i % 4]\<close> for
  \<^verbatim>\<open>i\<close> in \<^verbatim>\<open>range(len(data))\<close>.  The loop is modelled from index \<open>i\<close>
  upwards over the bytes not yet visited; reading \<^verbatim>\<open>mask[i % 4]\<close> past the end of
  the mask raises IndexError, as in Python.
\<close>

fun apply_mask_from :: "nat \<Rightarrow> byte list \<Rightarrow> byte list \<Rightarrow> py_error + byte list" where
  "apply_mask_from i msk [] = Inr []"
| "apply_mask_from i msk (d # ds) =
     (if i mod 4 < length msk
      then (case apply_mask_from (Suc i) msk ds of
              Inl e \<Rightarrow> Inl e
            | Inr ds' \<Rightarrow> Inr ((d XOR msk ! (i mod 4)) # ds'))
      else Inl IndexError)"

definition apply_mask :: "byte list \<Rightarrow> byte list \<Rightarrow> py_error + byte list" where
  "apply_mask msk data = apply_mask_from 0 msk data"

text \<open>
  \<^verbatim>\<open>class WebsocketOpcode(IntEnum)\<close>: the opcode argument of \<^verbatim>\<open>create_frame\<close>
  is a member of this enumeration (its default is TEXT).
\<close>

datatype WebsocketOpcode = CONT | TEXT | BINARY | CLOSE | PING | PONG

fun opcode_value :: "WebsocketOpcode \<Rightarrow> byte" where
  "opcode_value CONT = 0x00"
| "opcode_value TEXT = 0x01"
| "opcode_value BINARY = 0x02"
| "opcode_value CLOSE = 0x08"
| "opcode_value PING = 0x09"
| "opcode_value PONG = 0x0A"

definition get_fin :: "byte \<Rightarrow> byte" where "get_fin b = b AND 0x80"
definition get_rsv1 :: "byte \<Rightarrow> byte" where "get_rsv1 b = b AND 0x40"
definition get_rsv2 :: "byte \<Rightarrow> byte" where "get_rsv2 b = b AND 0x20"
definition get_rsv3 :: "byte \<Rightarrow> byte" where "get_rsv3 b = b AND 0x10"
definition get_opcode :: "byte \<Rightarrow> byte" where "get_opcode b = b AND 0x0F"
definition get_mask :: "byte \<Rightarrow> byte" where "get_mask b = b AND 0x80"
definition get_length :: "byte \<Rightarrow> byte" where "get_length b = b AND 0x7F"

text \<open>
  \<^verbatim>\<open>n.to_bytes(sz, 'big', signed=False)\<close> for a length \<open>n\<close> (OverflowError when
  it does not fit) and \<^verbatim>\<open>int.from_bytes(bs, 'big', signed=False)\<close>.
\<close>

definition to_bytes_big :: "nat \<Rightarrow> nat \<Rightarrow> py_error + byte list" where
  "to_bytes_big n sz =
     (if n < 256 ^ sz
      then Inr (map (\<lambda>i. of_nat (n div 256 ^ (sz - 1 - i))) [0 ..< sz])
      else Inl OverflowError)"

definition from_bytes_big :: "byte list \<Rightarrow> nat" where
  "from_bytes_big bs = foldl (\<lambda>acc b. acc * 256 + unat b) 0 bs"

text \<open>
  \<^verbatim>\<open>WebsocketFrame.create_frame\<close>.  The four bytes of \<^verbatim>\<open>os.urandom(4)\<close> are the
  argument \<open>urandom\<close>.  \<open>UnsignedShort.size\<close> is 2 and \<open>UnsignedLongLong.size\<close>
  is 8 (struct.calcsize of 'H' and 'Q').
\<close>

definition create_frame ::
  "byte list \<Rightarrow> WebsocketOpcode \<Rightarrow> bool \<Rightarrow> bool \<Rightarrow> bool \<Rightarrow> bool \<Rightarrow> bool \<Rightarrow> byte list
   \<Rightarrow> py_error + byte list" where
  "create_frame data opcode fin rsv1 rsv2 rsv3 masked urandom =
     (let b0 = (0 :: byte);
          b0 = (if fin then b0 OR 0x80 else b0);
          b0 = (if rsv1 then b0 OR 0x40 else b0);
          b0 = (if rsv2 then b0 OR 0x20 else b0);
          b0 = (if rsv3 then b0 OR 0x10 else b0);
          b0 = b0 OR opcode_value opcode;
          b1 = (0 :: byte);
          b1 = (if masked then b1 OR 0x80 else b1);
          len = length data;
          header =
            (if len \<le> 125 then Inr [b0, b1 OR of_nat len]
             else (let (b1, sz) = (if len \<le> 0xFFFF then (b1 OR 126, 2) else (b1 OR 127, 8))
                   in case to_bytes_big len sz of
                        Inl e \<Rightarrow> Inl e
                      | Inr lb \<Rightarrow> Inr ([b0, b1] @ lb)))
      in case header of
           Inl e \<Rightarrow> Inl e
         | Inr buffer \<Rightarrow>
             if masked
             then (case apply_mask urandom data of
                     Inl e \<Rightarrow> Inl e
                   | Inr data' \<Rightarrow> Inr (buffer @ urandom @ data'))
             else Inr (buffer @ data))"

subsection \<open>Receive state machine (class WebsocketProtocol)\<close>

text \<open>
  The frame under construction carries the attributes that \<^verbatim>\<open>create_frames\<close> assigns;
  \<open>ws_frame_receive\<close> lists the frames handed to
  \<^verbatim>\<open>connection.push_event('ws_frame_receive', frame)\<close>, oldest first.
\<close>

datatype WebsocketProtocolState = WAITING_FBYTE | WAITING_SBYTE | WAITING_LENGTH | WAITING_DATA

record frame =
  fbyte :: byte
  sbyte :: byte
  frame_data :: "byte list"
  frame_length :: nat
  length_buffer :: "byte list"
  bytes_needed :: nat

definition new_frame :: frame where
  "new_frame = \<lparr>fbyte = 0, sbyte = 0, frame_data = [], frame_length = 0, length_buffer = [],
     bytes_needed = 0\<rparr>"

record protocol =
  state :: WebsocketProtocolState
  frame :: frame
  ws_frame_receive :: "frame list"

definition new_protocol :: protocol where
  "new_protocol = \<lparr>state = WAITING_FBYTE, frame = new_frame, ws_frame_receive = []\<rparr>"

text \<open>
  The four \<^verbatim>\<open>if self.state == ...\<close> blocks of the loop body, each acting on the
  protocol and the read position; \<^verbatim>\<open>data[position:position + n]\<close> is
  \<^term>\<open>take n (drop position data)\<close>.
\<close>

definition on_fbyte :: "byte list \<Rightarrow> protocol \<times> nat \<Rightarrow> protocol \<times> nat" where
  "on_fbyte d = (\<lambda>(p, pos).
     if state p = WAITING_FBYTE
     then (p\<lparr>frame := (frame p)\<lparr>fbyte := d ! pos\<rparr>, state := WAITING_SBYTE\<rparr>, pos + 1)
     else (p, pos))"

definition on_sbyte :: "byte list \<Rightarrow> protocol \<times> nat \<Rightarrow> protocol \<times> nat" where
  "on_sbyte d = (\<lambda>(p, pos).
     if state p = WAITING_SBYTE
     then (let f = (frame p)\<lparr>frame_data := [], sbyte := d ! pos\<rparr>;
               f = f\<lparr>frame_length := unat (get_length (sbyte f))\<rparr>
           in if frame_length f > 125
              then (let f = f\<lparr>length_buffer := []\<rparr>;
                        f = (if frame_length f = 126 then f\<lparr>bytes_needed := 2\<rparr>
                             else if frame_length f = 127 then f\<lparr>bytes_needed := 8\<rparr>
                             else f)
                    in (p\<lparr>frame := f, state := WAITING_LENGTH\<rparr>, pos + 1))
              else (p\<lparr>frame := f\<lparr>bytes_needed := frame_length f\<rparr>, state := WAITING_DATA\<rparr>,
                    pos + 1))
     else (p, pos))"

definition on_length :: "byte list \<Rightarrow> protocol \<times> nat \<Rightarrow> protocol \<times> nat" where
  "on_length d = (\<lambda>(p, pos).
     if state p = WAITING_LENGTH
     then (let length_bytes = take (bytes_needed (frame p)) (drop pos d);
               f = (frame p)\<lparr>bytes_needed := bytes_needed (frame p) - length length_bytes,
                               length_buffer := length_buffer (frame p) @ length_bytes\<rparr>
           in if bytes_needed f = 0
              then (let f = f\<lparr>frame_length := from_bytes_big (length_buffer f)\<rparr>
                    in (p\<lparr>frame := f\<lparr>bytes_needed := frame_length f\<rparr>, state := WAITING_DATA\<rparr>,
                        pos + length length_bytes))
              else (p\<lparr>frame := f\<rparr>, pos + length length_bytes))
     else (p, pos))"

definition on_data :: "byte list \<Rightarrow> protocol \<times> nat \<Rightarrow> protocol \<times> nat" where
  "on_data d = (\<lambda>(p, pos).
     if state p = WAITING_DATA
     then (let data_bytes = take (bytes_needed (frame p)) (drop pos d);
               f = (frame p)\<lparr>bytes_needed := bytes_needed (frame p) - length data_bytes,
                               frame_data := frame_data (frame p) @ data_bytes\<rparr>
           in if bytes_needed f = 0
              then (p\<lparr>ws_frame_receive := ws_frame_receive p @ [f], frame := new_frame,
                       state := WAITING_FBYTE\<rparr>, pos + length data_bytes)
              else (p\<lparr>frame := f\<rparr>, pos + length data_bytes))
     else (p, pos))"

text \<open>
  The \<^verbatim>\<open>while True\<close> loop of \<^verbatim>\<open>create_frames\<close>, with its five
  \<^verbatim>\<open>if position >= len(data): return\<close> exits.  A pass that consumes no byte can only
  end a frame and go back to WAITING_FBYTE, which is why the loop terminates.
\<close>

definition loop_measure :: "protocol \<times> nat \<times> byte list \<Rightarrow> nat" where
  "loop_measure = (\<lambda>(p, pos, d). 2 * (length d - pos) + (if state p = WAITING_FBYTE then 0 else 1))"

function create_frames_loop :: "protocol \<Rightarrow> nat \<Rightarrow> byte list \<Rightarrow> protocol" where
  "create_frames_loop p pos d =
     (if pos \<ge> length d then p
      else (let (p1, pos1) = on_fbyte d (p, pos) in
        if pos1 \<ge> length d then p1
        else (let (p2, pos2) = on_sbyte d (p1, pos1) in
          if pos2 \<ge> length d then p2
          else (let (p3, pos3) = on_length d (p2, pos2) in
            if pos3 \<ge> length d then p3
            else (let (p4, pos4) = on_data d (p3, pos3) in
              if pos4 \<ge> length d then p4
              else create_frames_loop p4 pos4 d)))))"
  by pat_completeness auto


termination create_frames_loop
proof (relation "measure loop_measure", goal_cases)
  case 1
  show ?case by simp
next
  case (2 p pos d x1 p1 pos1 x2 p2 pos2 x3 p3 pos3 x4 p4 pos4)
  then have lt: "pos < length d" "pos4 < length d"
    and f: "on_fbyte d (p, pos) = (p1, pos1)"
    and s: "on_sbyte d (p1, pos1) = (p2, pos2)"
    and l: "on_length d (p2, pos2) = (p3, pos3)"
    and dt: "on_data d (p3, pos3) = (p4, pos4)"
    by simp_all
  from s have ms: "pos1 \<le> pos2" by (auto simp: on_sbyte_def Let_def split: if_splits)
  from l have ml: "pos2 \<le> pos3" by (auto simp: on_length_def Let_def split: if_splits)
  from dt have md: "pos3 \<le> pos4" by (auto simp: on_data_def Let_def split: if_splits)
  have "loop_measure (p4, pos4, d) < loop_measure (p, pos, d)"
  proof (cases "state p = WAITING_FBYTE")
    case True
    with f have "pos < pos1" by (auto simp: on_fbyte_def)
    with ms ml md have "pos < pos4" by linarith
    with lt show ?thesis by (auto simp: loop_measure_def)
  next
    case False
    with f have eq: "p1 = p" "pos1 = pos" by (auto simp: on_fbyte_def)
    have "pos < pos4 \<or> (pos4 = pos \<and> state p4 = WAITING_FBYTE)"
    proof (cases "pos3 = pos")
      case False
      with ms ml md eq show ?thesis by linarith
    next
      case True
      with ms ml eq have p2: "pos2 = pos" by linarith
      have ns: "state p \<noteq> WAITING_SBYTE"
      proof
        assume "state p = WAITING_SBYTE"
        with s eq have "pos2 = pos + 1" by (auto simp: on_sbyte_def Let_def split: if_splits)
        with p2 show False by simp
      qed
      with s eq have s2: "p2 = p" by (auto simp: on_sbyte_def)
      from ns False have "state p = WAITING_LENGTH \<or> state p = WAITING_DATA"
        by (cases "state p") auto
      then have "state p3 = WAITING_DATA"
        using l s2 p2 True lt(1) by (auto simp: on_length_def Let_def split: if_splits)
      with dt True lt(1) show ?thesis
        by (auto simp: on_data_def Let_def split: if_splits)
    qed
    with False lt show ?thesis by (auto simp: loop_measure_def)
  qed
  then show ?case by simp
qed

declare create_frames_loop.simps [simp del]

definition create_frames :: "protocol \<Rightarrow> byte list \<Rightarrow> protocol" where
  "create_frames p d = create_frames_loop p 0 d"

text \<open>The frame that a complete pass over one encoded frame hands to the listeners.\<close>

definition decoded :: "byte \<Rightarrow> byte \<Rightarrow> byte list \<Rightarrow> byte list \<Rightarrow> frame" where
  "decoded b0 b1 lb data = \<lparr>fbyte = b0, sbyte = b1, frame_data = data, frame_length = length data,
     length_buffer = lb, bytes_needed = 0\<rparr>"

section \<open>Upgrade handshake (snakecord/connection.py, class BaseConnection)\<close>

text \<open>
  Byte strings are \<^typ>\<open>string\<close>; a decoded \<^verbatim>\<open>str\<close> is represented by its UTF-8
  bytes.  The library calls used by \<^verbatim>\<open>iter_headers\<close> and \<^verbatim>\<open>connect\<close>:
  \<^verbatim>\<open>bytes.index(sub, start)\<close>, \<^verbatim>\<open>strip()\<close>, \<^verbatim>\<open>lower()\<close>,
  \<^verbatim>\<open>split(sep, 1)\<close>, \<^verbatim>\<open>split(sep)\<close>, \<^verbatim>\<open>decode()\<close> (UTF-8, strict) and
  \<^verbatim>\<open>int(s)\<close> on the ASCII forms (sign, digits, single underscores between digits).
\<close>

definition CRLF :: string where
  "CRLF = [CHR 0x0D, CHR 0x0A]"

fun find_sub :: "string \<Rightarrow> string \<Rightarrow> nat option" where
  "find_sub sub [] = (if sub = [] then Some 0 else None)"
| "find_sub sub (c # cs) =
     (if take (length sub) (c # cs) = sub then Some 0 else map_option Suc (find_sub sub cs))"

definition bytes_index :: "string \<Rightarrow> string \<Rightarrow> nat \<Rightarrow> py_error + nat" where
  "bytes_index s sub start =
     (case find_sub sub (drop start s) of None \<Rightarrow> Inl ValueError | Some i \<Rightarrow> Inr (start + i))"

definition is_space :: "char \<Rightarrow> bool" where
  "is_space c = (c \<in> set [CHR 0x20, CHR 0x09, CHR 0x0A, CHR 0x0D, CHR 0x0B, CHR 0x0C])"

definition strip :: "string \<Rightarrow> string" where
  "strip s = rev (dropWhile is_space (rev (dropWhile is_space s)))"

definition lower_char :: "char \<Rightarrow> char" where
  "lower_char c =
     (case map_of (zip ''ABCDEFGHIJKLMNOPQRSTUVWXYZ'' ''abcdefghijklmnopqrstuvwxyz'') c of
        None \<Rightarrow> c
      | Some l \<Rightarrow> l)"

definition lower :: "string \<Rightarrow> string" where
  "lower s = map lower_char s"

definition split1 :: "char \<Rightarrow> string \<Rightarrow> string list" where
  "split1 sep s =
     (if sep \<in> set s then [takeWhile (\<lambda>c. c \<noteq> sep) s, tl (dropWhile (\<lambda>c. c \<noteq> sep) s)] else [s])"

fun split_all :: "char \<Rightarrow> string \<Rightarrow> string list" where
  "split_all sep [] = [] # []"
| "split_all sep (c # cs) =
     (if c = sep then [] # split_all sep cs
      else (case split_all sep cs of w # ws \<Rightarrow> (c # w) # ws | [] \<Rightarrow> [c] # []))"

definition cont :: "nat \<Rightarrow> bool" where
  "cont b = (0x80 \<le> b \<and> b \<le> 0xBF)"

fun utf8_valid :: "nat list \<Rightarrow> bool" where
  "utf8_valid [] = True"
| "utf8_valid (a # r) =
     (if a < 0x80 then utf8_valid r
      else if 0xC2 \<le> a \<and> a \<le> 0xDF then
        (case r of b # r' \<Rightarrow> cont b \<and> utf8_valid r' | _ \<Rightarrow> False)
      else if 0xE0 \<le> a \<and> a \<le> 0xEF then
        (case r of b # c # r' \<Rightarrow>
           (if a = 0xE0 then 0xA0 \<le> b \<and> b \<le> 0xBF
            else if a = 0xED then 0x80 \<le> b \<and> b \<le> 0x9F else cont b)
           \<and> cont c \<and> utf8_valid r'
         | _ \<Rightarrow> False)
      else if 0xF0 \<le> a \<and> a \<le> 0xF4 then
        (case r of b # c # d # r' \<Rightarrow>
           (if a = 0xF0 then 0x90 \<le> b \<and> b \<le> 0xBF
            else if a = 0xF4 then 0x80 \<le> b \<and> b \<le> 0x8F else cont b)
           \<and> cont c \<and> cont d \<and> utf8_valid r'
         | _ \<Rightarrow> False)
      else False)"

definition decode :: "string \<Rightarrow> py_error + string" where
  "decode s = (if utf8_valid (map of_char s) then Inr s else Inl UnicodeDecodeError)"

definition is_digit :: "char \<Rightarrow> bool" where
  "is_digit c = (48 \<le> (of_char c :: nat) \<and> (of_char c :: nat) \<le> 57)"

fun grouped :: "string \<Rightarrow> bool" where
  "grouped [] = False"
| "grouped [c] = is_digit c"
| "grouped (c # d # r) =
     (is_digit c \<and> (if d = CHR ''_'' then grouped r else grouped (d # r)))"

definition digits_value :: "string \<Rightarrow> nat" where
  "digits_value ds = foldl (\<lambda>acc c. acc * 10 + (of_char c - 48)) 0 (filter is_digit ds)"

definition py_int :: "string \<Rightarrow> py_error + int" where
  "py_int s =
     (let t = strip s;
          (neg, ds) = (case t of
                         [] \<Rightarrow> (False, [])
                       | c # r \<Rightarrow> if c = CHR ''-'' then (True, r)
                                  else if c = CHR ''+'' then (False, r) else (False, t))
      in if grouped ds
         then Inr (if neg then - int (digits_value ds) else int (digits_value ds))
         else Inl ValueError)"

text \<open>
  One resumption of the generator \<^verbatim>\<open>iter_headers\<close> at \<open>offset\<close>: ValueError from
  \<^verbatim>\<open>index\<close>, \<open>None\<close> when the generator returns at the empty line, or the
  stripped, lower-cased fields of the line and the next offset.
\<close>

definition iter_headers_next :: "string \<Rightarrow> nat \<Rightarrow> py_error + (string list \<times> nat) option" where
  "iter_headers_next headers offset =
     (case bytes_index headers CRLF offset of
        Inl e \<Rightarrow> Inl e
      | Inr i \<Rightarrow>
          (let index = i + 2;
               data = take (index - offset) (drop offset headers)
           in if data = CRLF then Inr None
              else Inr (Some (map (\<lambda>value. lower (strip value)) (split1 CHR '':'' data), index))))"

text \<open>
  \<^verbatim>\<open>dict(headers)\<close> drains the generator; every item must have two fields, and a
  later header replaces an earlier one of the same name.
\<close>

function dict_headers ::
  "string \<Rightarrow> nat \<Rightarrow> (string \<rightharpoonup> string) \<Rightarrow> py_error + (string \<rightharpoonup> string)" where
  "dict_headers headers offset acc =
     (case iter_headers_next headers offset of
        Inl e \<Rightarrow> Inl e
      | Inr None \<Rightarrow> Inr acc
      | Inr (Some (parts, index)) \<Rightarrow>
          (case parts of
             [k, v] \<Rightarrow> dict_headers headers index (acc(k \<mapsto> v))
           | _ \<Rightarrow> Inl ValueError))"
  by pat_completeness auto
termination
proof (relation "measure (\<lambda>(headers, offset, acc). length headers - offset)", goal_cases)
  case 1
  show ?case by simp
next
  case (2 headers offset acc r x parts index k rest v rest')
  have found: "find_sub sub s = Some i \<Longrightarrow> sub \<noteq> [] \<Longrightarrow> i + length sub \<le> length s" for sub s i
  proof (induction s arbitrary: i)
    case Nil
    then show ?case by simp
  next
    case (Cons c cs)
    show ?case
    proof (cases "take (length sub) (c # cs) = sub")
      case True
      then have "length (take (length sub) (c # cs)) = length sub" by simp
      then have "length sub \<le> length (c # cs)" by (simp del: take_Suc_Cons)
      with True Cons.prems show ?thesis by simp
    next
      case False
      with Cons.prems obtain j where "find_sub sub cs = Some j" "i = Suc j" by auto
      with Cons.IH [of j] Cons.prems show ?thesis by simp
    qed
  qed
  from 2 obtain i where i: "bytes_index headers CRLF offset = Inr i" and index: "index = i + 2"
    by (auto simp: iter_headers_next_def Let_def split: sum.splits if_splits)
  then obtain j where "find_sub CRLF (drop offset headers) = Some j" "i = offset + j"
    by (auto simp: bytes_index_def split: option.splits)
  with found [of CRLF "drop offset headers" j] have "offset + j + 2 \<le> length headers"
    by (simp add: CRLF_def)
  with \<open>i = offset + j\<close> index show ?case by simp
qed

declare dict_headers.simps [simp del]

text \<open>
  \<^verbatim>\<open>status, = next(headers)\<close> and
  \<^verbatim>\<open>status_code = status.split(b' ')[1].decode()\<close>.  An exhausted generator makes
  \<^verbatim>\<open>next\<close> raise StopIteration, which a coroutine turns into RuntimeError.
\<close>

definition read_status :: "string \<Rightarrow> py_error + (string \<times> nat)" where
  "read_status headers =
     (case iter_headers_next headers 0 of
        Inl e \<Rightarrow> Inl e
      | Inr None \<Rightarrow> Inl RuntimeError
      | Inr (Some (parts, offset)) \<Rightarrow>
          (case parts of
             [status] \<Rightarrow>
               (case split_all CHR '' '' status of
                  _ # code # _ \<Rightarrow>
                    (case decode code of
                       Inl e \<Rightarrow> Inl e
                     | Inr status_code \<Rightarrow> Inr (status_code, offset))
                | _ \<Rightarrow> Inl IndexError)
           | _ \<Rightarrow> Inl ValueError))"

text \<open>
  \<^verbatim>\<open>headers.get(name).decode()\<close>: \<^verbatim>\<open>get\<close> gives None for a missing header,
  and None has no \<^verbatim>\<open>decode\<close>.
\<close>

definition header_get :: "(string \<rightharpoonup> string) \<Rightarrow> string \<Rightarrow> py_error + string" where
  "header_get headers name =
     (case headers name of None \<Rightarrow> Inl AttributeError | Some v \<Rightarrow> decode v)"

text \<open>
  \<^verbatim>\<open>BaseConnection.connect\<close> from the point where the response headers have arrived
  (\<^verbatim>\<open>self.protocol.headers\<close>, ending with the first empty line).
\<close>

definition connect :: "string \<Rightarrow> py_error + unit" where
  "connect protocol_headers =
     (case read_status protocol_headers of
        Inl e \<Rightarrow> Inl e
      | Inr (status_code, offset) \<Rightarrow>
          (case py_int status_code of
             Inl e \<Rightarrow> Inl e
           | Inr code \<Rightarrow>
               if code \<noteq> 101
               then Inl (BadWsHttpResponse ''status code'' (PyInt 101) (PyStr status_code))
               else (case dict_headers protocol_headers offset Map.empty of
                       Inl e \<Rightarrow> Inl e
                     | Inr headers \<Rightarrow>
                         (case header_get headers ''connection'' of
                            Inl e \<Rightarrow> Inl e
                          | Inr connection \<Rightarrow>
                              if connection \<noteq> ''upgrade''
                              then Inl (BadWsHttpResponse ''connection'' (PyStr ''upgrade'')
                                         (PyStr connection))
                              else (case header_get headers ''upgrade'' of
                                      Inl e \<Rightarrow> Inl e
                                    | Inr upgrade \<Rightarrow>
                                        if upgrade \<noteq> ''websocket''
                                        then Inl (BadWsHttpResponse ''upgrade''
                                                   (PyStr ''websocket'') (PyStr upgrade))
                                        else Inr ())))))"

section \<open>Heartbeat handler (snakecord/connection.py, class HeartbeatHandler)\<close>

text \<open>
  The handler's attributes, with two counters of its effects on the connection:
  \<open>sent_payloads\<close> counts the calls of \<^verbatim>\<open>connection.send_json(payload)\<close> and
  \<open>connection_stale\<close> the pushes of the \<^verbatim>\<open>connection_stale\<close> event.
  \<open>current_handle\<close> is the timer handle of \<^verbatim>\<open>loop.call_later\<close>, with its cancelled
  flag.  \<^verbatim>\<open>connection.wait('heartbeat_ack', timeout)\<close> either returns at some instant
  of \<^verbatim>\<open>time.perf_counter()\<close> or raises \<^verbatim>\<open>asyncio.TimeoutError\<close>.
\<close>

datatype hb_outcome = Ack rat | Timeout

record HeartbeatHandler =
  timeout :: rat
  heartbeat_interval :: "rat ext"
  heartbeats_sent :: int
  heartbeats_acked :: int
  last_sent :: "rat ext"
  last_acked :: "rat ext"
  current_handle :: "bool option"
  stopped :: bool
  sent_payloads :: nat
  connection_stale :: nat

definition HeartbeatHandler_init :: "rat \<Rightarrow> HeartbeatHandler" where
  "HeartbeatHandler_init tmo = \<lparr>timeout = tmo, heartbeat_interval = PosInf, heartbeats_sent = 0,
     heartbeats_acked = 0, last_sent = PosInf, last_acked = PosInf, current_handle = None,
     stopped = False, sent_payloads = 0, connection_stale = 0\<rparr>"

definition do_heartbeat :: "HeartbeatHandler \<Rightarrow> HeartbeatHandler" where
  "do_heartbeat h = (if stopped h then h else h\<lparr>current_handle := Some False\<rparr>)"

definition stop :: "HeartbeatHandler \<Rightarrow> HeartbeatHandler" where
  "stop h = (let h = h\<lparr>stopped := True\<rparr>
             in case current_handle h of
                  None \<Rightarrow> h
                | Some _ \<Rightarrow> h\<lparr>current_handle := Some True\<rparr>)"

definition wait_ack :: "hb_outcome \<Rightarrow> HeartbeatHandler \<Rightarrow> HeartbeatHandler" where
  "wait_ack outcome h =
     (case outcome of
        Ack t \<Rightarrow> h\<lparr>last_acked := Fin t, heartbeats_acked := heartbeats_acked h + 1\<rparr>
      | Timeout \<Rightarrow> (let h = stop h in h\<lparr>connection_stale := connection_stale h + 1\<rparr>))"

definition send_heartbeat :: "rat \<Rightarrow> hb_outcome \<Rightarrow> HeartbeatHandler \<Rightarrow> HeartbeatHandler" where
  "send_heartbeat now outcome h =
     (if stopped h then h
      else (let h = h\<lparr>last_sent := Fin now\<rparr>;
                h = h\<lparr>sent_payloads := sent_payloads h + 1\<rparr>;
                h = wait_ack outcome h
            in do_heartbeat h))"

text \<open>
  The successive runs of \<^verbatim>\<open>send_heartbeat\<close>: the one created by \<^verbatim>\<open>start\<close> and
  the ones the timer of \<^verbatim>\<open>do_heartbeat\<close> creates, each with the instant it reads and
  the outcome of its wait.
\<close>

fun heartbeats :: "(rat \<times> hb_outcome) list \<Rightarrow> HeartbeatHandler \<Rightarrow> HeartbeatHandler" where
  "heartbeats [] h = h"
| "heartbeats ((now, outcome) # rest) h = heartbeats rest (send_heartbeat now outcome h)"

section \<open>Rate limiter (lib/rest.py, classes Ratelimiter and RestSession)\<close>

text \<open>
  A queued request is either \<^verbatim>\<open>functools.partial(self._request, ratelimiter, req)\<close>,
  which \<^verbatim>\<open>RestSession.request\<close> submits, or the bare HTTP operation \<^verbatim>\<open>req\<close>,
  which the 429 branch of \<^verbatim>\<open>_request\<close> submits again.  Requests and futures are
  identified by numbers.
\<close>

datatype request_fn = Wrapped nat | Raw nat

text \<open>
  What \<^verbatim>\<open>_request\<close> reads from a response: the status, the three rate-limit headers
  where present (as the numbers \<^verbatim>\<open>int\<close> and \<^verbatim>\<open>float\<close> make of them), and the
  outcome of \<^verbatim>\<open>RatelimitedResponse.unmarshal\<close> on the body: the body is not JSON, or
  it gives \<^verbatim>\<open>retry_after\<close> (None when the field is missing).
\<close>

datatype parsed_body = NotJson | Json "rat option"

record response =
  status :: nat
  x_ratelimit_limit :: "int option"
  x_ratelimit_remaining :: "int option"
  x_ratelimit_reset :: "rat option"
  body :: parsed_body

text \<open>
  The coroutines run on one event loop and give up control only at an \<^verbatim>\<open>await\<close>.
  A \<^verbatim>\<open>do_burst\<close> task is at one of its suspension points: created and not yet past
  \<^verbatim>\<open>async with self.lock\<close>; inside the lock at \<^verbatim>\<open>wait_for_headers\<close> before the
  loop, at \<^verbatim>\<open>asyncio.sleep(0)\<close>, at \<^verbatim>\<open>wait_for_headers\<close> in the loop, or at
  \<^verbatim>\<open>asyncio.sleep(self.reset_after)\<close> with its wake-up time; or it has ended, by
  returning, by cancellation or by an exception.  A request task awaits the HTTP response,
  the body of a 429 response, or the future of its second submission.
\<close>

datatype burst_pc = Created | WaitReady | Yielded | WaitHeaders | Sleeping "rat ext"
  | Finished | Cancelled | Raised py_error

datatype request_pc = AwaitResponse | AwaitText response | AwaitRetry nat | Done | Failed py_error

text \<open>
  The attributes of a \<^verbatim>\<open>Ratelimiter\<close> (\<open>lock\<close>: the lock is held;
  \<open>new_headers\<close>: the event is set; \<open>tasks\<close>: \<^verbatim>\<open>_tasks\<close>), and what the event
  loop holds for it: the \<^verbatim>\<open>do_burst\<close> tasks with their cancellation request, the
  request tasks with the queue entry they were created from, and the futures of
  \<^verbatim>\<open>loop.create_future()\<close> (True once \<^verbatim>\<open>set_result\<close> ran), each in order of
  creation.  \<open>submitted\<close> is a history variable: every entry that \<^verbatim>\<open>request\<close>
  ever appended to the queue, in order; no operation reads it.
\<close>

record bucket =
  limit :: "int ext"
  remaining :: "int ext"
  reset :: "rat ext"
  lock :: bool
  new_headers :: bool
  queue :: "(request_fn \<times> nat) list"
  tasks :: "nat list"
  current_burst_task :: "nat option"
  made_first_request :: bool
  burst_tasks :: "(burst_pc \<times> bool) list"
  request_tasks :: "(request_fn \<times> nat \<times> request_pc) list"
  futures :: "bool list"
  submitted :: "(request_fn \<times> nat) list"

definition Ratelimiter_init :: bucket where
  "Ratelimiter_init = \<lparr>limit = PosInf, remaining = PosInf, reset = PosInf, lock = False,
     new_headers = False, queue = [], tasks = [], current_burst_task = None,
     made_first_request = False, burst_tasks = [], request_tasks = [], futures = [],
     submitted = []\<rparr>"

text \<open>
  The properties \<^verbatim>\<open>reset_after\<close> (at the instant \<open>now\<close> of
  \<^verbatim>\<open>datetime.now().timestamp()\<close>) and \<^verbatim>\<open>ready\<close>, the test
  \<^verbatim>\<open>self.remaining <= 0\<close>, the assignment \<^verbatim>\<open>self.remaining -= 1\<close>, and the
  instant at which a sleep of the given delay ends.
\<close>

definition reset_after :: "rat \<Rightarrow> bucket \<Rightarrow> rat ext" where
  "reset_after now b = (case reset b of PosInf \<Rightarrow> PosInf | Fin r \<Rightarrow> Fin (max 0 (r - now)))"

definition ready :: "bucket \<Rightarrow> bool" where
  "ready b = (limit b \<noteq> PosInf \<and> reset b \<noteq> PosInf \<and> remaining b \<noteq> PosInf)"

definition exhausted :: "int ext \<Rightarrow> bool" where
  "exhausted r = (case r of PosInf \<Rightarrow> False | Fin n \<Rightarrow> n \<le> 0)"

definition decrement :: "int ext \<Rightarrow> int ext" where
  "decrement r = (case r of PosInf \<Rightarrow> PosInf | Fin n \<Rightarrow> Fin (n - 1))"

definition wake_time :: "rat \<Rightarrow> rat ext \<Rightarrow> rat ext" where
  "wake_time now delay = (case delay of PosInf \<Rightarrow> PosInf | Fin d \<Rightarrow> Fin (now + d))"

definition elapsed :: "rat ext \<Rightarrow> rat \<Rightarrow> bool" where
  "elapsed t now = (case t of PosInf \<Rightarrow> False | Fin d \<Rightarrow> d \<le> now)"

text \<open>
  \<^verbatim>\<open>Ratelimiter.request\<close>.
\<close>

definition request :: "request_fn \<Rightarrow> bucket \<Rightarrow> nat \<times> bucket" where
  "request req b =
     (let fut = length (futures b);
          b = b\<lparr>futures := futures b @ [False]\<rparr>;
          b = b\<lparr>queue := queue b @ [(req, fut)], submitted := submitted b @ [(req, fut)]\<rparr>;
          b = (if \<not> made_first_request b
               then b\<lparr>burst_tasks := burst_tasks b @ [(Created, False)]\<rparr>
               else if current_burst_task b = None
               then b\<lparr>current_burst_task := Some (length (burst_tasks b)),
                      burst_tasks := burst_tasks b @ [(Created, False)]\<rparr>
               else b)
      in (fut, b))"

text \<open>
  \<^verbatim>\<open>Ratelimiter._burst_run_once\<close>; \<^verbatim>\<open>pop(0)\<close> of an empty list raises IndexError.
\<close>

definition burst_run_once :: "bucket \<Rightarrow> py_error + bucket" where
  "burst_run_once b =
     (case queue b of
        [] \<Rightarrow> Inl IndexError
      | (req, fut) # rest \<Rightarrow>
          Inr (b\<lparr>queue := rest,
                 tasks := tasks b @ [length (request_tasks b)],
                 request_tasks := request_tasks b @ [(req, fut, AwaitResponse)]\<rparr>))"

text \<open>
  \<^verbatim>\<open>Ratelimiter.do_burst\<close>, cut at its suspension points.  Each function runs the code
  from one point to the next and gives the point reached: \<open>leave\<close> is the last statement
  and the exit of \<^verbatim>\<open>async with\<close>; \<open>while_queue\<close> the loop test followed by
  \<^verbatim>\<open>asyncio.sleep(0)\<close>; \<open>dispatch_one\<close> the decrement and the dispatch;
  \<open>sleep_until_reset\<close> the end of \<^verbatim>\<open>wait_for_headers\<close> followed by the sleep;
  \<open>after_yield\<close> the test of \<open>remaining\<close>; \<open>enter\<close> the body from the lock on.
  Waiting on an event that is already set does not suspend.  \<open>do_burst\<close> resumes a
  task at its point, and is \<open>None\<close> while what the task waits for has not happened.
\<close>

definition leave :: "bucket \<Rightarrow> bucket \<times> burst_pc" where
  "leave b = (b\<lparr>current_burst_task := None, lock := False\<rparr>, Finished)"

definition raise_in_lock :: "py_error \<Rightarrow> bucket \<Rightarrow> bucket \<times> burst_pc" where
  "raise_in_lock e b = (b\<lparr>lock := False\<rparr>, Raised e)"

definition while_queue :: "bucket \<Rightarrow> bucket \<times> burst_pc" where
  "while_queue b = (if queue b \<noteq> [] then (b, Yielded) else leave b)"

definition dispatch_one :: "bucket \<Rightarrow> bucket \<times> burst_pc" where
  "dispatch_one b =
     (let b = b\<lparr>remaining := decrement (remaining b)\<rparr>
      in case burst_run_once b of
           Inl e \<Rightarrow> raise_in_lock e b
         | Inr b' \<Rightarrow> while_queue b')"

definition sleep_until_reset :: "rat \<Rightarrow> bucket \<Rightarrow> bucket \<times> burst_pc" where
  "sleep_until_reset now b =
     (let b = b\<lparr>new_headers := False\<rparr>
      in (b, Sleeping (wake_time now (reset_after now b))))"

definition after_yield :: "rat \<Rightarrow> bucket \<Rightarrow> bucket \<times> burst_pc" where
  "after_yield now b =
     (if exhausted (remaining b)
      then (if new_headers b then sleep_until_reset now b else (b, WaitHeaders))
      else dispatch_one b)"

definition enter :: "bucket \<Rightarrow> bucket \<times> burst_pc" where
  "enter b =
     (if \<not> made_first_request b
      then (case burst_run_once b of
              Inl e \<Rightarrow> raise_in_lock e b
            | Inr b' \<Rightarrow> leave (b'\<lparr>made_first_request := True\<rparr>))
      else if \<not> ready b
      then (if new_headers b then while_queue (b\<lparr>new_headers := False\<rparr>) else (b, WaitReady))
      else while_queue b)"

definition do_burst :: "rat \<Rightarrow> burst_pc \<Rightarrow> bucket \<Rightarrow> (bucket \<times> burst_pc) option" where
  "do_burst now pc b =
     (case pc of
        Created \<Rightarrow> if lock b then None else Some (enter (b\<lparr>lock := True\<rparr>))
      | WaitReady \<Rightarrow>
          if new_headers b then Some (while_queue (b\<lparr>new_headers := False\<rparr>)) else None
      | Yielded \<Rightarrow> Some (after_yield now b)
      | WaitHeaders \<Rightarrow> if new_headers b then Some (sleep_until_reset now b) else None
      | Sleeping t \<Rightarrow> if elapsed t now then Some (dispatch_one b) else None
      | _ \<Rightarrow> None)"

text \<open>
  \<^verbatim>\<open>Task.cancel()\<close> requests the cancellation of a task that has not ended; the task
  then ends with CancelledError at the point where it is suspended, which releases the lock
  if it is inside \<^verbatim>\<open>async with\<close> and skips the statements after it.
\<close>

definition live :: "burst_pc \<Rightarrow> bool" where
  "live pc = (case pc of Finished \<Rightarrow> False | Cancelled \<Rightarrow> False | Raised e \<Rightarrow> False | _ \<Rightarrow> True)"

definition cancelled_error :: "burst_pc \<Rightarrow> bucket \<Rightarrow> bucket \<times> burst_pc" where
  "cancelled_error pc b = (if pc = Created then (b, Cancelled) else (b\<lparr>lock := False\<rparr>, Cancelled))"

definition cancel :: "nat \<Rightarrow> bucket \<Rightarrow> bucket" where
  "cancel t b =
     (if t < length (burst_tasks b) \<and> live (fst (burst_tasks b ! t))
      then b\<lparr>burst_tasks := (burst_tasks b)[t := (fst (burst_tasks b ! t), True)]\<rparr>
      else b)"

text \<open>
  The done callback of \<^verbatim>\<open>_task_done_callback\<close>, and \<^verbatim>\<open>RestSession._request\<close>
  cut at its suspension points: the 429 branch up to \<^verbatim>\<open>await resp.text()\<close>, the rest
  of the 429 branch up to the await of the second submission, and the branch of every other
  status.
\<close>

definition set_result :: "nat \<Rightarrow> nat \<Rightarrow> bucket \<Rightarrow> bucket" where
  "set_result t fut b = b\<lparr>tasks := remove1 t (tasks b), futures := (futures b)[fut := True]\<rparr>"

definition request_429 :: "response \<Rightarrow> bucket \<Rightarrow> bucket \<times> request_pc" where
  "request_429 resp b =
     (let b = (case current_burst_task b of None \<Rightarrow> b | Some t \<Rightarrow> cancel t b)
      in (b, AwaitText resp))"

definition request_retry :: "nat \<Rightarrow> response \<Rightarrow> rat \<Rightarrow> bucket \<Rightarrow> bucket \<times> request_pc" where
  "request_retry r resp now b =
     (case body resp of
        NotJson \<Rightarrow> (b, Failed ValueError)
      | Json retry_after \<Rightarrow>
          (let b = b\<lparr>remaining := Fin 0\<rparr>
           in case retry_after of
                None \<Rightarrow> (b, Failed TypeError)
              | Some ms \<Rightarrow>
                  (let b = b\<lparr>reset := Fin (now + ms / 1000)\<rparr>;
                       b = b\<lparr>new_headers := True\<rparr>;
                       (fut, b) = request (Raw r) b
                   in (b, AwaitRetry fut))))"

definition request_headers :: "response \<Rightarrow> bucket \<Rightarrow> bucket \<times> request_pc" where
  "request_headers resp b =
     (let b = (case x_ratelimit_limit resp of None \<Rightarrow> b | Some l \<Rightarrow> b\<lparr>limit := Fin l\<rparr>);
          b = (case x_ratelimit_remaining resp of None \<Rightarrow> b | Some n \<Rightarrow> b\<lparr>remaining := Fin n\<rparr>);
          b = (case x_ratelimit_reset resp of None \<Rightarrow> b | Some t \<Rightarrow> b\<lparr>reset := Fin t\<rparr>);
          b = b\<lparr>new_headers := True\<rparr>
      in (b, Done))"

text \<open>
  What the event loop can do next: a caller submits a request through
  \<^verbatim>\<open>RestSession.request\<close>; a \<^verbatim>\<open>do_burst\<close> task is resumed at a given instant;
  the response of a dispatched request arrives; the body of a 429 response has been read;
  the future a request task awaits has its result.  \<open>step\<close> is \<open>None\<close> when the
  event cannot happen in the state.
\<close>

datatype event = Submit nat | RunBurst nat rat | Response nat response | Text nat rat | Retried nat

definition finished :: "request_pc \<Rightarrow> bool" where
  "finished pc = (case pc of Done \<Rightarrow> True | Failed e \<Rightarrow> True | _ \<Rightarrow> False)"

definition resume_request :: "nat \<Rightarrow> request_fn \<Rightarrow> nat \<Rightarrow> bucket \<times> request_pc \<Rightarrow> bucket" where
  "resume_request t req fut = (\<lambda>(b, pc).
     let b = b\<lparr>request_tasks := (request_tasks b)[t := (req, fut, pc)]\<rparr>
     in if finished pc then set_result t fut b else b)"

definition step :: "event \<Rightarrow> bucket \<Rightarrow> bucket option" where
  "step ev b =
     (case ev of
        Submit r \<Rightarrow> Some (snd (request (Wrapped r) b))
      | RunBurst t now \<Rightarrow>
          if t < length (burst_tasks b)
          then (case burst_tasks b ! t of
                  (pc, cancel_requested) \<Rightarrow>
                    if \<not> live pc then None
                    else (case (if cancel_requested then Some (cancelled_error pc b)
                                else do_burst now pc b) of
                            None \<Rightarrow> None
                          | Some (b', pc') \<Rightarrow>
                              Some (b'\<lparr>burst_tasks := (burst_tasks b')[t := (pc', cancel_requested)]\<rparr>)))
          else None
      | Response t resp \<Rightarrow>
          if t < length (request_tasks b)
          then (case request_tasks b ! t of
                  (Wrapped r, fut, AwaitResponse) \<Rightarrow>
                    Some (resume_request t (Wrapped r) fut
                           (if status resp = 429 then request_429 resp b else request_headers resp b))
                | (Raw r, fut, AwaitResponse) \<Rightarrow> Some (resume_request t (Raw r) fut (b, Done))
                | _ \<Rightarrow> None)
          else None
      | Text t now \<Rightarrow>
          if t < length (request_tasks b)
          then (case request_tasks b ! t of
                  (Wrapped r, fut, AwaitText resp) \<Rightarrow>
                    Some (resume_request t (Wrapped r) fut (request_retry r resp now b))
                | _ \<Rightarrow> None)
          else None
      | Retried t \<Rightarrow>
          if t < length (request_tasks b)
          then (case request_tasks b ! t of
                  (req, fut, AwaitRetry fut') \<Rightarrow>
                    if fut' < length (futures b) \<and> futures b ! fut'
                    then Some (resume_request t req fut (b, Done)) else None
                | _ \<Rightarrow> None)
          else None)"

fun run :: "event list \<Rightarrow> bucket \<Rightarrow> bucket option" where
  "run [] b = Some b"
| "run (ev # evs) b = (case step ev b of None \<Rightarrow> None | Some b' \<Rightarrow> run evs b')"

text \<open>
  The entries dispatched so far, in the order of \<^verbatim>\<open>loop.create_task(req())\<close>.
\<close>

definition dispatched :: "bucket \<Rightarrow> (request_fn \<times> nat) list" where
  "dispatched b = map (\<lambda>(req, fut, pc). (req, fut)) (request_tasks b)"

text \<open>
  Invariants of the reachable states: the order of dispatch, and the tasks inside the lock.
\<close>

definition fifo :: "bucket \<Rightarrow> bool" where
  "fifo b = (dispatched b @ queue b = submitted b)"

definition in_lock :: "burst_pc \<Rightarrow> bool" where
  "in_lock pc = (case pc of WaitReady \<Rightarrow> True | Yielded \<Rightarrow> True | WaitHeaders \<Rightarrow> True
     | Sleeping t \<Rightarrow> True | _ \<Rightarrow> False)"

definition holders :: "bucket \<Rightarrow> nat" where
  "holders b = length (filter (\<lambda>(pc, c). in_lock pc) (burst_tasks b))"

definition serialised :: "bucket \<Rightarrow> bool" where
  "serialised b = (holders b = (if lock b then 1 else 0) \<and> (lock b \<longrightarrow> made_first_request b))"

section \<open>Snowflake (snakecord/utils.py)\<close>









section \<open>Masking\<close>

lemma apply_mask_from_total:
  "length msk = 4 \<Longrightarrow>
   apply_mask_from i msk ds = Inr (map (\<lambda>(k, d). d XOR msk ! (k mod 4)) (zip [i ..< i + length ds] ds))"
proof (induction ds arbitrary: i)
  case Nil
  then show ?case by simp
next
  case (Cons d ds)
  have "[i ..< i + length (d # ds)] = i # [Suc i ..< Suc i + length ds]"
    by (simp add: upt_rec)
  with Cons show ?case by simp
qed

lemma apply_mask_from_twice:
  "length msk = 4 \<Longrightarrow> apply_mask_from i msk ds = Inr ds' \<Longrightarrow>
   apply_mask_from i msk ds' = Inr ds"
proof (induction ds arbitrary: i ds')
  case Nil
  then show ?case by simp
next
  case (Cons d ds)
  from Cons.prems obtain r where r: "apply_mask_from (Suc i) msk ds = Inr r"
    and ds': "ds' = (d XOR msk ! (i mod 4)) # r"
    by (auto split: sum.splits if_splits)
  from Cons.IH [OF Cons.prems(1) r] have "apply_mask_from (Suc i) msk r = Inr ds" .
  with Cons.prems(1) ds' show ?case by (simp add: xor.assoc)
qed

text \<open>
  C10.  For every 4-byte mask and every byte buffer, \<^verbatim>\<open>apply_mask\<close> succeeds, and
  applying it a second time with the same mask gives the original buffer back.
\<close>

theorem apply_mask_involution:
  "length msk = 4 \<Longrightarrow>
   (\<exists>masked. apply_mask msk data = Inr masked \<and> apply_mask msk masked = Inr data)"
proof -
  assume len: "length msk = 4"
  from apply_mask_from_total [OF len, of 0 data]
  obtain masked where m: "apply_mask_from 0 msk data = Inr masked" by blast
  from apply_mask_from_twice [OF len m] m show ?thesis
    by (auto simp: apply_mask_def)
qed

theorem apply_mask_involution_witness:
  "length [1, 2, 3, 4 :: byte] = 4 \<and>
   apply_mask [1, 2, 3, 4] [72, 101, 108, 108, 111] = Inr [73, 103, 111, 104, 110] \<and>
   apply_mask [1, 2, 3, 4] [73, 103, 111, 104, 110] = Inr [72, 101, 108, 108, 111]"
  using apply_mask_involution [of "[1, 2, 3, 4]" "[72, 101, 108, 108, 111]"]
  by (simp add: apply_mask_def)

section \<open>Frame round trip\<close>

lemma from_bytes_big_snoc: "from_bytes_big (bs @ [b]) = from_bytes_big bs * 256 + unat b"
  by (simp add: from_bytes_big_def)

lemma from_bytes_big_digits:
  "from_bytes_big (map (\<lambda>i. of_nat (n div 256 ^ (sz - 1 - i))) [0 ..< sz]) = n mod 256 ^ sz"
proof (induction sz arbitrary: n)
  case 0
  then show ?case by (simp add: from_bytes_big_def)
next
  case (Suc sz)
  have "map (\<lambda>i. (of_nat (n div 256 ^ (Suc sz - 1 - i)) :: byte)) [0 ..< sz]
      = map (\<lambda>i. of_nat ((n div 256) div 256 ^ (sz - 1 - i))) [0 ..< sz]"
  proof (rule map_cong [OF refl])
    fix i assume "i \<in> set [0 ..< sz]"
    then have "Suc sz - 1 - i = Suc (sz - 1 - i)" by auto
    then show "(of_nat (n div 256 ^ (Suc sz - 1 - i)) :: byte) = of_nat ((n div 256) div 256 ^ (sz - 1 - i))"
      by (simp add: div_mult2_eq)
  qed
  note first = this
  have "map (\<lambda>i. (of_nat (n div 256 ^ (Suc sz - 1 - i)) :: byte)) [0 ..< Suc sz]
      = map (\<lambda>i. (of_nat (n div 256 ^ (Suc sz - 1 - i)) :: byte)) [0 ..< sz] @ [of_nat n]"
    by simp
  then have "from_bytes_big (map (\<lambda>i. of_nat (n div 256 ^ (Suc sz - 1 - i))) [0 ..< Suc sz])
      = from_bytes_big (map (\<lambda>i. of_nat ((n div 256) div 256 ^ (sz - 1 - i))) [0 ..< sz]) * 256
        + unat (of_nat n :: byte)"
    unfolding first by (simp only: from_bytes_big_snoc)
  also have "\<dots> = ((n div 256) mod 256 ^ sz) * 256 + unat (of_nat n :: byte)"
    by (simp only: Suc.IH)
  also have "unat (of_nat n :: byte) = n mod 256" by (simp add: unat_of_nat)
  also have "((n div 256) mod 256 ^ sz) * 256 + n mod 256 = n mod 256 ^ Suc sz"
    by (simp add: mod_mult2_eq)
  finally show ?case .
qed

lemma to_bytes_big_roundtrip:
  "to_bytes_big n sz = Inr lb \<Longrightarrow> from_bytes_big lb = n \<and> length lb = sz"
proof -
  assume a: "to_bytes_big n sz = Inr lb"
  then have n: "n < 256 ^ sz"
    and lb: "lb = map (\<lambda>i. of_nat (n div 256 ^ (sz - 1 - i))) [0 ..< sz]"
    by (auto simp: to_bytes_big_def split: if_splits)
  from lb have "length lb = sz" by simp
  moreover from n have "from_bytes_big lb = n"
    unfolding lb from_bytes_big_digits by simp
  ultimately show ?thesis by simp
qed

lemma get_length_of_nat: "len \<le> 125 \<Longrightarrow> unat (get_length (of_nat len)) = len"
proof -
  assume a: "len \<le> 125"
  have "(127 :: byte) = mask 7" by (simp add: mask_eq_exp_minus_1)
  then have "get_length (of_nat len) = take_bit 7 (of_nat len :: byte)"
    by (simp add: get_length_def take_bit_eq_mask)
  then show ?thesis using a by (simp add: unsigned_take_bit_eq unat_of_nat take_bit_eq_mod unat_mod)
qed

lemma first_byte_fields:
  fixes b0 :: byte
  assumes "b0 = (let b0 = (0 :: byte);
          b0 = (if fin then b0 OR 0x80 else b0);
          b0 = (if rsv1 then b0 OR 0x40 else b0);
          b0 = (if rsv2 then b0 OR 0x20 else b0);
          b0 = (if rsv3 then b0 OR 0x10 else b0) in b0 OR opcode_value opcode)"
  shows "get_opcode b0 = opcode_value opcode" 
    and "(get_fin b0 \<noteq> 0) = fin"
    and "(get_rsv1 b0 \<noteq> 0) = rsv1"
    and "(get_rsv2 b0 \<noteq> 0) = rsv2"
    and "(get_rsv3 b0 \<noteq> 0) = rsv3"
  unfolding assms
  by (cases opcode; cases fin; cases rsv1; cases rsv2; cases rsv3;
      simp add: get_opcode_def get_fin_def get_rsv1_def get_rsv2_def get_rsv3_def)+

lemma loop_once:
  assumes "pos < length d"
    and "on_fbyte d (p, pos) = (p1, pos1)" and "pos1 < length d"
    and "on_sbyte d (p1, pos1) = (p2, pos2)" and "pos2 < length d"
    and "on_length d (p2, pos2) = (p3, pos3)" and "pos3 < length d"
    and "on_data d (p3, pos3) = (p4, pos4)" and "length d \<le> pos4"
  shows "create_frames_loop p pos d = p4"
  using assms by (simp add: create_frames_loop.simps [of p pos d])

lemma decode_short:
  assumes "data \<noteq> []" and "unat (get_length b1) = length data" and "length data \<le> 125"
  shows "create_frames new_protocol (b0 # b1 # data)
         = new_protocol\<lparr>ws_frame_receive := [decoded b0 b1 [] data]\<rparr>"
proof -
  let ?d = "b0 # b1 # data"
  let ?f1 = "new_frame\<lparr>fbyte := b0\<rparr>"
  let ?p1 = "new_protocol\<lparr>frame := ?f1, state := WAITING_SBYTE\<rparr>"
  let ?f2 = "?f1\<lparr>frame_data := [], sbyte := b1, frame_length := length data,
               bytes_needed := length data\<rparr>"
  let ?p2 = "?p1\<lparr>frame := ?f2, state := WAITING_DATA\<rparr>"
  let ?p4 = "?p2\<lparr>ws_frame_receive := [decoded b0 b1 [] data], frame := new_frame,
               state := WAITING_FBYTE\<rparr>"
  have 1: "on_fbyte ?d (new_protocol, 0) = (?p1, 1)"
    by (simp add: on_fbyte_def new_protocol_def)
  have 2: "on_sbyte ?d (?p1, 1) = (?p2, 2)"
    using assms(2,3) by (simp add: on_sbyte_def Let_def)
  have 3: "on_length ?d (?p2, 2) = (?p2, 2)"
    by (simp add: on_length_def)
  have 4: "on_data ?d (?p2, 2) = (?p4, 2 + length data)"
    by (simp add: on_data_def Let_def new_frame_def new_protocol_def decoded_def)
  have "create_frames_loop new_protocol 0 ?d = ?p4"
    using assms(1) by (intro loop_once [OF _ 1 _ 2 _ 3 _ 4]) simp_all
  then show ?thesis by (simp add: create_frames_def new_protocol_def)
qed

lemma decode_extended:
  assumes "data \<noteq> []"
    and "unat (get_length b1) = 126 \<and> length lb = 2 \<or> unat (get_length b1) = 127 \<and> length lb = 8"
    and "from_bytes_big lb = length data"
  shows "create_frames new_protocol (b0 # b1 # lb @ data)
         = new_protocol\<lparr>ws_frame_receive := [decoded b0 b1 lb data]\<rparr>"
proof -
  let ?d = "b0 # b1 # lb @ data"
  let ?f1 = "new_frame\<lparr>fbyte := b0\<rparr>"
  let ?p1 = "new_protocol\<lparr>frame := ?f1, state := WAITING_SBYTE\<rparr>"
  let ?f2 = "?f1\<lparr>frame_data := [], sbyte := b1, frame_length := unat (get_length b1),
               length_buffer := [], bytes_needed := length lb\<rparr>"
  let ?p2 = "?p1\<lparr>frame := ?f2, state := WAITING_LENGTH\<rparr>"
  let ?f3 = "?f2\<lparr>bytes_needed := 0, length_buffer := lb, frame_length := length data,
               bytes_needed := length data\<rparr>"
  let ?p3 = "?p2\<lparr>frame := ?f3, state := WAITING_DATA\<rparr>"
  let ?p4 = "?p3\<lparr>ws_frame_receive := [decoded b0 b1 lb data], frame := new_frame,
               state := WAITING_FBYTE\<rparr>"
  from assms(2) have lb: "0 < length lb" by auto
  have 1: "on_fbyte ?d (new_protocol, 0) = (?p1, 1)"
    by (simp add: on_fbyte_def new_protocol_def)
  have 2: "on_sbyte ?d (?p1, 1) = (?p2, 2)"
    using assms(2) by (auto simp add: on_sbyte_def Let_def)
  have 3: "on_length ?d (?p2, 2) = (?p3, 2 + length lb)"
    using assms(3) by (simp add: on_length_def Let_def)
  have 4: "on_data ?d (?p3, 2 + length lb) = (?p4, 2 + length lb + length data)"
    by (simp add: on_data_def Let_def new_frame_def new_protocol_def decoded_def)
  have "create_frames_loop new_protocol 0 ?d = ?p4"
    using assms(1) lb by (intro loop_once [OF _ 1 _ 2 _ 3 _ 4]) simp_all
  then show ?thesis by (simp add: create_frames_def new_protocol_def)
qed

lemma create_frame_unmasked:
  assumes "length data < 2 ^ 64"
  shows "\<exists>b0 b1 lb. create_frame data opcode fin rsv1 rsv2 rsv3 False urandom = Inr (b0 # b1 # lb @ data)
    \<and> get_opcode b0 = opcode_value opcode \<and> (get_fin b0 \<noteq> 0) = fin
    \<and> (get_rsv1 b0 \<noteq> 0) = rsv1 \<and> (get_rsv2 b0 \<noteq> 0) = rsv2 \<and> (get_rsv3 b0 \<noteq> 0) = rsv3
    \<and> (length data \<le> 125 \<and> lb = [] \<and> unat (get_length b1) = length data
       \<or> (unat (get_length b1) = 126 \<and> length lb = 2 \<or> unat (get_length b1) = 127 \<and> length lb = 8)
          \<and> from_bytes_big lb = length data)"
proof -
  define b0 :: byte where "b0 = (let b0 = (0 :: byte);
          b0 = (if fin then b0 OR 0x80 else b0);
          b0 = (if rsv1 then b0 OR 0x40 else b0);
          b0 = (if rsv2 then b0 OR 0x20 else b0);
          b0 = (if rsv3 then b0 OR 0x10 else b0) in b0 OR opcode_value opcode)"
  note fields = first_byte_fields [OF b0_def]
  consider (short) "length data \<le> 125"
    | (mid) "125 < length data" "length data \<le> 0xFFFF"
    | (long) "0xFFFF < length data" by linarith
  then show ?thesis
  proof cases
    case short
    then have "create_frame data opcode fin rsv1 rsv2 rsv3 False urandom
        = Inr (b0 # of_nat (length data) # [] @ data)"
      by (simp add: create_frame_def b0_def Let_def)
    with fields short get_length_of_nat [of "length data"] show ?thesis by blast
  next
    case mid
    then have "length data < 256 ^ 2" by simp
    then obtain lb where lb: "to_bytes_big (length data) 2 = Inr lb"
      by (simp add: to_bytes_big_def)
    with mid have "create_frame data opcode fin rsv1 rsv2 rsv3 False urandom
        = Inr (b0 # 126 # lb @ data)"
      by (simp add: create_frame_def b0_def Let_def)
    moreover have "unat (get_length 126) = 126" by (simp add: get_length_def)
    ultimately show ?thesis using fields to_bytes_big_roundtrip [OF lb] by blast
  next
    case long
    from assms have "length data < 256 ^ 8" by simp
    then obtain lb where lb: "to_bytes_big (length data) 8 = Inr lb"
      by (simp add: to_bytes_big_def)
    with long have "create_frame data opcode fin rsv1 rsv2 rsv3 False urandom
        = Inr (b0 # 127 # lb @ data)"
      by (simp add: create_frame_def b0_def Let_def)
    moreover have "unat (get_length 127) = 127" by (simp add: get_length_def)
    ultimately show ?thesis using fields to_bytes_big_roundtrip [OF lb] by blast
  qed
qed

text \<open>
  C1 (as amended).  For every non-empty payload of fewer than 2^64 bytes and every opcode,
  FIN and RSV flags, \<^verbatim>\<open>create_frame(p, masked=False)\<close> succeeds, and feeding its bytes
  to \<^verbatim>\<open>create_frames\<close> of a fresh protocol emits exactly one frame, whose payload is
  the payload given and whose first byte carries the opcode and the flags given; the protocol
  is back in WAITING_FBYTE.
\<close>

theorem frame_roundtrip_unmasked:
  assumes "data \<noteq> []" and "length data < 2 ^ 64"
  shows "\<exists>buffer f. create_frame data opcode fin rsv1 rsv2 rsv3 False urandom = Inr buffer \<and>
     ws_frame_receive (create_frames new_protocol buffer) = [f] \<and>
     state (create_frames new_protocol buffer) = WAITING_FBYTE \<and>
     frame_data f = data \<and>
     get_opcode (fbyte f) = opcode_value opcode \<and>
     (get_fin (fbyte f) \<noteq> 0) = fin \<and>
     (get_rsv1 (fbyte f) \<noteq> 0) = rsv1 \<and>
     (get_rsv2 (fbyte f) \<noteq> 0) = rsv2 \<and>
     (get_rsv3 (fbyte f) \<noteq> 0) = rsv3"
proof -
  from create_frame_unmasked [OF assms(2), of opcode fin rsv1 rsv2 rsv3 urandom]
  obtain b0 b1 lb where enc: "create_frame data opcode fin rsv1 rsv2 rsv3 False urandom = Inr (b0 # b1 # lb @ data)"
    and fields: "get_opcode b0 = opcode_value opcode" "(get_fin b0 \<noteq> 0) = fin"
      "(get_rsv1 b0 \<noteq> 0) = rsv1" "(get_rsv2 b0 \<noteq> 0) = rsv2" "(get_rsv3 b0 \<noteq> 0) = rsv3"
    and len: "length data \<le> 125 \<and> lb = [] \<and> unat (get_length b1) = length data
       \<or> (unat (get_length b1) = 126 \<and> length lb = 2 \<or> unat (get_length b1) = 127 \<and> length lb = 8)
          \<and> from_bytes_big lb = length data"
    by blast
  have dec: "create_frames new_protocol (b0 # b1 # lb @ data)
      = new_protocol\<lparr>ws_frame_receive := [decoded b0 b1 lb data]\<rparr>"
    using len
  proof
    assume "length data \<le> 125 \<and> lb = [] \<and> unat (get_length b1) = length data"
    with decode_short [OF assms(1), of b1 b0] show ?thesis by simp
  next
    assume "(unat (get_length b1) = 126 \<and> length lb = 2 \<or> unat (get_length b1) = 127 \<and> length lb = 8)
          \<and> from_bytes_big lb = length data"
    with decode_extended [OF assms(1), of b1 lb b0] show ?thesis by simp
  qed
  show ?thesis
    apply (rule exI [of _ "b0 # b1 # lb @ data"])
    apply (rule exI [of _ "decoded b0 b1 lb data"])
    using enc fields unfolding dec by (simp add: new_protocol_def decoded_def)
qed

theorem frame_roundtrip_unmasked_witness:
  "[72, 105 :: byte] \<noteq> [] \<and> length [72, 105 :: byte] < 2 ^ 64 \<and>
   create_frame [72, 105] TEXT True False False False False [] = Inr [129, 2, 72, 105] \<and>
   ws_frame_receive (create_frames new_protocol [129, 2, 72, 105])
     = [decoded 129 2 [] [72, 105]] \<and>
   frame_data (decoded 129 2 [] [72, 105]) = [72, 105] \<and>
   get_opcode (fbyte (decoded 129 2 [] [72, 105])) = opcode_value TEXT \<and>
   get_fin (fbyte (decoded 129 2 [] [72, 105])) \<noteq> 0"
  using frame_roundtrip_unmasked [of "[72, 105]" TEXT True False False False "[]"]
  by (simp add: create_frame_def create_frames_def create_frames_loop.simps on_fbyte_def
      on_sbyte_def on_length_def on_data_def new_protocol_def new_frame_def get_length_def
      get_opcode_def get_fin_def decoded_def Let_def)

text \<open>
  C1 as stated fails for masked frames: the receive state machine never reads the mask
  bit and never unmasks.  The one-byte payload 65 masked with 1, 2, 3, 4 is decoded as a
  frame whose payload is the first mask byte.  It also fails for the empty payload: after
  the second byte the loop returns, and no frame is emitted until more bytes arrive.
\<close>

theorem frame_roundtrip_masked_counterexample:
  "create_frame [65] TEXT True False False False True [1, 2, 3, 4] = Inr [129, 129, 1, 2, 3, 4, 64] \<and>
   ws_frame_receive (create_frames new_protocol [129, 129, 1, 2, 3, 4, 64])
     = [decoded 129 129 [] [1]] \<and>
   frame_data (decoded 129 129 [] [1]) \<noteq> [65] \<and>
   create_frame [] TEXT True False False False False [] = Inr [129, 0] \<and>
   ws_frame_receive (create_frames new_protocol [129, 0]) = []"
  by (simp add: create_frame_def apply_mask_def create_frames_def create_frames_loop.simps on_fbyte_def
      on_sbyte_def on_length_def on_data_def new_protocol_def new_frame_def get_length_def
      decoded_def Let_def)

section \<open>Snowflake construction and timestamp\<close>





section \<open>Handshake rejection\<close>

lemmas connect_eval = connect_def read_status_def iter_headers_next_def bytes_index_def CRLF_def
  split1_def strip_def lower_def lower_char_def is_space_def decode_def py_int_def is_digit_def
  digits_value_def header_get_def dict_headers.simps Let_def



lemma connect_accepts:
  "connect (''HTTP/1.1 101 Switching Protocols'' @ CRLF @ ''Connection: Upgrade'' @ CRLF
            @ ''Upgrade: WebSocket'' @ CRLF @ CRLF) = Inr ()"
  by (simp add: connect_eval)


section \<open>Heartbeat counters\<close>

lemma send_heartbeat_sent: "heartbeats_sent (send_heartbeat now outcome h) = heartbeats_sent h"
  by (simp add: send_heartbeat_def wait_ack_def do_heartbeat_def stop_def Let_def
      split: hb_outcome.splits option.splits)

lemma send_heartbeat_acked:
  "heartbeats_acked h \<le> heartbeats_acked (send_heartbeat now outcome h)"
  by (simp add: send_heartbeat_def wait_ack_def do_heartbeat_def stop_def Let_def
      split: hb_outcome.splits option.splits)

lemma heartbeats_sent_unchanged: "heartbeats_sent (heartbeats evs h) = heartbeats_sent h"
  by (induction evs arbitrary: h) (auto simp: send_heartbeat_sent)

lemma heartbeats_acked_mono: "heartbeats_acked h \<le> heartbeats_acked (heartbeats evs h)"
proof (induction evs arbitrary: h)
  case Nil
  show ?case by simp
next
  case (Cons e evs)
  obtain now outcome where e: "e = (now, outcome)" by (cases e)
  from send_heartbeat_acked [of h now outcome] Cons [of "send_heartbeat now outcome h"]
  show ?case unfolding e by simp
qed

text \<open>
  C5.  The claimed invariant fails in the code: nothing ever assigns
  \<open>heartbeats_sent\<close> after the constructor, so after the first acknowledged heartbeat
  \<open>heartbeats_acked\<close> is 1 while \<open>heartbeats_sent\<close> is still 0, although one payload
  went out.
\<close>

theorem heartbeat_acked_exceeds_sent:
  "heartbeats_acked (send_heartbeat 5 (Ack 6) (HeartbeatHandler_init 10)) = 1 \<and>
   heartbeats_sent (send_heartbeat 5 (Ack 6) (HeartbeatHandler_init 10)) = 0 \<and>
   sent_payloads (send_heartbeat 5 (Ack 6) (HeartbeatHandler_init 10)) = 1"
  by (simp add: send_heartbeat_def wait_ack_def do_heartbeat_def HeartbeatHandler_init_def Let_def)

section \<open>Rate limiter: order of dispatch\<close>

lemma dispatched_update:
  "t < length (request_tasks b) \<Longrightarrow> request_tasks b ! t = (req, fut, pc) \<Longrightarrow>
   map (\<lambda>(req, fut, pc). (req, fut)) ((request_tasks b)[t := (req, fut, pc')])
     = map (\<lambda>(req, fut, pc). (req, fut)) (request_tasks b)"
  by (simp add: map_update) (metis (mono_tags, lifting) case_prod_conv list_update_id map_update)

lemma request_fifo: "fifo b \<Longrightarrow> fifo (snd (request req b))"
  by (simp add: fifo_def request_def dispatched_def Let_def)

lemma burst_run_once_fifo: "burst_run_once b = Inr b' \<Longrightarrow> fifo b \<Longrightarrow> fifo b'"
  by (auto simp: fifo_def burst_run_once_def dispatched_def split: list.splits)

lemma while_queue_fifo: "while_queue b = (b', pc') \<Longrightarrow> fifo b \<Longrightarrow> fifo b'"
  by (auto simp: while_queue_def leave_def fifo_def dispatched_def split: if_splits)

lemma dispatch_one_fifo: "dispatch_one b = (b', pc') \<Longrightarrow> fifo b \<Longrightarrow> fifo b'"
proof -
  assume a: "dispatch_one b = (b', pc')" and f: "fifo b"
  let ?b = "b\<lparr>remaining := decrement (remaining b)\<rparr>"
  from f have f': "fifo ?b" by (simp add: fifo_def dispatched_def)
  show "fifo b'"
  proof (cases "burst_run_once ?b")
    case (Inl e)
    with a f' show ?thesis
      by (auto simp: dispatch_one_def Let_def raise_in_lock_def fifo_def dispatched_def)
  next
    case (Inr b1)
    with a have "while_queue b1 = (b', pc')" by (simp add: dispatch_one_def Let_def)
    with burst_run_once_fifo [OF Inr f'] show ?thesis by (blast intro: while_queue_fifo)
  qed
qed

lemma enter_fifo: "enter b = (b', pc') \<Longrightarrow> fifo b \<Longrightarrow> fifo b'"
proof -
  assume a: "enter b = (b', pc')" and f: "fifo b"
  show "fifo b'"
  proof (cases "made_first_request b")
    case False
    show ?thesis
    proof (cases "burst_run_once b")
      case (Inl e)
      with a f False show ?thesis
        by (auto simp: enter_def raise_in_lock_def fifo_def dispatched_def)
    next
      case (Inr b1)
      from burst_run_once_fifo [OF Inr f] a False Inr show ?thesis
        by (auto simp: enter_def leave_def fifo_def dispatched_def)
    qed
  next
    case True
    have "fifo (b\<lparr>new_headers := False\<rparr>)" using f by (simp add: fifo_def dispatched_def)
    with a f True show ?thesis
      by (auto simp: enter_def split: if_splits dest: while_queue_fifo)
  qed
qed

lemma do_burst_fifo: "do_burst now pc b = Some (b', pc') \<Longrightarrow> fifo b \<Longrightarrow> fifo b'"
proof -
  assume a: "do_burst now pc b = Some (b', pc')" and f: "fifo b"
  have l: "fifo (b\<lparr>lock := True\<rparr>)" and h: "fifo (b\<lparr>new_headers := False\<rparr>)"
    using f by (simp_all add: fifo_def dispatched_def)
  show "fifo b'"
  proof (cases pc)
    case Created
    with a l show ?thesis by (auto simp: do_burst_def split: if_splits dest: enter_fifo)
  next
    case WaitReady
    with a h show ?thesis by (auto simp: do_burst_def split: if_splits dest: while_queue_fifo)
  next
    case Yielded
    with a f h show ?thesis
      by (auto simp: do_burst_def after_yield_def sleep_until_reset_def Let_def
          split: if_splits dest: dispatch_one_fifo)
  next
    case WaitHeaders
    with a h show ?thesis
      by (auto simp: do_burst_def sleep_until_reset_def Let_def split: if_splits)
  next
    case (Sleeping t)
    with a f show ?thesis by (auto simp: do_burst_def split: if_splits dest: dispatch_one_fifo)
  qed (use a in \<open>simp_all add: do_burst_def\<close>)
qed

lemma resume_request_fifo:
  assumes "t < length (request_tasks b)" and "request_tasks b ! t = (req, fut, pc)"
    and "fifo b'" and "request_tasks b' = request_tasks b"
  shows "fifo (resume_request t req fut (b', pc'))"
  using assms dispatched_update [of t b req fut pc pc']
  by (simp add: resume_request_def Let_def set_result_def fifo_def dispatched_def)

lemma cancel_fifo: "fifo b \<Longrightarrow> fifo (cancel t b)"
  by (simp add: cancel_def fifo_def dispatched_def)

lemma cancel_request_tasks: "request_tasks (cancel t b) = request_tasks b"
  by (simp add: cancel_def)

lemma request_429_fifo:
  "request_429 resp b = (b', pc') \<Longrightarrow> fifo b \<Longrightarrow> fifo b' \<and> request_tasks b' = request_tasks b"
  by (auto simp: request_429_def Let_def cancel_fifo cancel_request_tasks split: option.splits)

lemma request_headers_fifo:
  "request_headers resp b = (b', pc') \<Longrightarrow> fifo b \<Longrightarrow> fifo b' \<and> request_tasks b' = request_tasks b"
  by (auto simp: request_headers_def Let_def fifo_def dispatched_def split: option.splits)

lemma request_request_tasks: "request_tasks (snd (request req b)) = request_tasks b"
  by (simp add: request_def Let_def)

lemma request_retry_fifo:
  "request_retry r resp now b = (b', pc') \<Longrightarrow> fifo b \<Longrightarrow> fifo b' \<and> request_tasks b' = request_tasks b"
proof -
  assume a: "request_retry r resp now b = (b', pc')" and f: "fifo b"
  show ?thesis
  proof (cases "body resp")
    case NotJson
    with a f show ?thesis by (simp add: request_retry_def)
  next
    case (Json ra)
    show ?thesis
    proof (cases ra)
      case None
      with a f Json show ?thesis by (auto simp: request_retry_def Let_def fifo_def dispatched_def)
    next
      case (Some ms)
      let ?b = "b\<lparr>remaining := Fin 0, reset := Fin (now + ms / 1000), new_headers := True\<rparr>"
      have "fifo ?b" using f by (simp add: fifo_def dispatched_def)
      from request_fifo [OF this, of "Raw r"] request_request_tasks [of "Raw r" ?b]
      show ?thesis using a Json Some
        by (auto simp: request_retry_def Let_def split: prod.splits)
    qed
  qed
qed

lemma step_fifo: "step ev b = Some b' \<Longrightarrow> fifo b \<Longrightarrow> fifo b'"
proof -
  assume a: "step ev b = Some b'" and f: "fifo b"
  show "fifo b'"
  proof (cases ev)
    case (Submit r)
    with a request_fifo [OF f, of "Wrapped r"] show ?thesis by (auto simp: step_def)
  next
    case (RunBurst t now)
    with a have t: "t < length (burst_tasks b)"
      by (auto simp: step_def split: if_splits)
    obtain pc c where bt: "burst_tasks b ! t = (pc, c)" by (cases "burst_tasks b ! t")
    show ?thesis
    proof (cases c)
      case True
      with a RunBurst t bt f show ?thesis
        by (auto simp: step_def cancelled_error_def fifo_def dispatched_def split: if_splits)
    next
      case False
      with a RunBurst t bt obtain b1 pc1 where d: "do_burst now pc b = Some (b1, pc1)"
        and b': "b' = b1\<lparr>burst_tasks := (burst_tasks b1)[t := (pc1, c)]\<rparr>"
        by (auto simp: step_def split: if_splits option.splits)
      from do_burst_fifo [OF d f] b' show ?thesis by (simp add: fifo_def dispatched_def)
    qed
  next
    case (Response t resp)
    with a have t: "t < length (request_tasks b)"
      by (auto simp: step_def split: if_splits)
    obtain req fut pc where rt: "request_tasks b ! t = (req, fut, pc)" by (cases "request_tasks b ! t")
    show ?thesis
    proof (cases req)
      case (Wrapped r)
      obtain b1 pc1 where s: "(if status resp = 429 then request_429 resp b else request_headers resp b) = (b1, pc1)"
        by (cases "if status resp = 429 then request_429 resp b else request_headers resp b")
      then have "fifo b1 \<and> request_tasks b1 = request_tasks b"
        using f by (auto split: if_splits dest: request_429_fifo request_headers_fifo)
      with resume_request_fifo [OF t rt, of b1 pc1] have "fifo (resume_request t req fut (b1, pc1))" by simp
      with a Response t rt Wrapped s show ?thesis
        by (auto simp: step_def split: request_pc.splits)
    next
      case (Raw r)
      from resume_request_fifo [OF t rt f refl, of Done] a Response t rt Raw show ?thesis
        by (auto simp: step_def split: request_pc.splits)
    qed
  next
    case (Text t now)
    with a have t: "t < length (request_tasks b)"
      by (auto simp: step_def split: if_splits)
    obtain req fut pc where rt: "request_tasks b ! t = (req, fut, pc)" by (cases "request_tasks b ! t")
    from a Text t rt obtain r resp where req: "req = Wrapped r" and pc: "pc = AwaitText resp"
      by (auto simp: step_def split: request_fn.splits request_pc.splits)
    obtain b1 pc1 where s: "request_retry r resp now b = (b1, pc1)" by (cases "request_retry r resp now b")
    from request_retry_fifo [OF s f] resume_request_fifo [OF t rt, of b1 pc1]
    have "fifo (resume_request t req fut (b1, pc1))" by simp
    with a Text t rt req pc s show ?thesis by (auto simp: step_def)
  next
    case (Retried t)
    with a have t: "t < length (request_tasks b)"
      by (auto simp: step_def split: if_splits)
    obtain req fut pc where rt: "request_tasks b ! t = (req, fut, pc)" by (cases "request_tasks b ! t")
    from resume_request_fifo [OF t rt f refl, of Done] a Retried t rt show ?thesis
      by (auto simp: step_def split: request_pc.splits if_splits)
  qed
qed

lemma run_fifo: "run evs b = Some b' \<Longrightarrow> fifo b \<Longrightarrow> fifo b'"
  by (induction evs arbitrary: b) (auto split: option.splits dest: step_fifo)






text \<open>
  C3.  In every state the bucket reaches from its initial state, the entries dispatched so
  far followed by the entries still queued are the entries submitted, in the order of
  submission: requests are dispatched in the order in which they were enqueued.
\<close>

theorem bucket_fifo:
  "run evs Ratelimiter_init = Some b \<Longrightarrow> dispatched b @ queue b = submitted b"
proof -
  assume "run evs Ratelimiter_init = Some b"
  moreover have "fifo Ratelimiter_init" by (simp add: fifo_def dispatched_def Ratelimiter_init_def)
  ultimately have "fifo b" by (rule run_fifo)
  then show ?thesis by (simp add: fifo_def)
qed

section \<open>Rate limiter: the lock\<close>

lemma count_update:
  "t < length xs \<Longrightarrow>
   length (filter P (xs[t := y])) + (if P (xs ! t) then 1 else 0)
     = length (filter P xs) + (if P y then 1 else 0)"
proof (induction xs arbitrary: t)
  case Nil
  then show ?case by simp
next
  case (Cons x xs)
  show ?case
  proof (cases t)
    case 0
    then show ?thesis by simp
  next
    case (Suc k)
    with Cons.prems have "k < length xs" by simp
    from Cons.IH [OF this] Suc show ?thesis by simp
  qed
qed

lemma holders_update:
  "t < length (burst_tasks b) \<Longrightarrow> burst_tasks b ! t = (pc, c) \<Longrightarrow> burst_tasks b1 = burst_tasks b \<Longrightarrow>
   holders (b1\<lparr>burst_tasks := (burst_tasks b1)[t := (pc', c')]\<rparr>) + (if in_lock pc then 1 else 0)
     = holders b + (if in_lock pc' then 1 else 0)"
  using count_update [of t "burst_tasks b" "\<lambda>(pc, c). in_lock pc" "(pc', c')"]
  by (simp add: holders_def)

lemma do_burst_effect:
  assumes "do_burst now pc b = Some (b', pc')"
  shows "burst_tasks b' = burst_tasks b"
    and "pc = Created \<or> in_lock pc"
    and "pc = Created \<Longrightarrow> \<not> lock b"
    and "pc = Created \<or> lock b \<Longrightarrow> lock b' = in_lock pc'"
    and "made_first_request b \<Longrightarrow> made_first_request b'"
    and "pc = Created \<Longrightarrow> lock b' \<Longrightarrow> made_first_request b'"
proof -
  have e: "enter (b\<lparr>lock := True\<rparr>) = (b', pc') \<Longrightarrow>
      burst_tasks b' = burst_tasks b \<and> lock b' = in_lock pc' \<and>
      (made_first_request b \<longrightarrow> made_first_request b') \<and> (lock b' \<longrightarrow> made_first_request b')"
    by (auto simp: enter_def while_queue_def leave_def burst_run_once_def raise_in_lock_def
        in_lock_def split: if_splits list.splits sum.splits)
  have w: "while_queue b0 = (b', pc') \<Longrightarrow>
      burst_tasks b' = burst_tasks b0 \<and> (lock b0 \<longrightarrow> lock b' = in_lock pc') \<and>
      made_first_request b' = made_first_request b0" for b0
    by (auto simp: while_queue_def leave_def in_lock_def split: if_splits)
  have d: "dispatch_one b = (b', pc') \<Longrightarrow>
      burst_tasks b' = burst_tasks b \<and> (lock b \<longrightarrow> lock b' = in_lock pc') \<and>
      made_first_request b' = made_first_request b"
    by (auto simp: dispatch_one_def Let_def while_queue_def leave_def burst_run_once_def
        raise_in_lock_def in_lock_def split: if_splits list.splits sum.splits)
  have s: "sleep_until_reset now b = (b', pc') \<Longrightarrow>
      burst_tasks b' = burst_tasks b \<and> lock b' = lock b \<and> in_lock pc' \<and>
      made_first_request b' = made_first_request b"
    by (auto simp: sleep_until_reset_def Let_def in_lock_def)
  have all: "burst_tasks b' = burst_tasks b \<and> (pc = Created \<or> in_lock pc) \<and>
      (pc = Created \<longrightarrow> \<not> lock b) \<and> (pc = Created \<or> lock b \<longrightarrow> lock b' = in_lock pc') \<and>
      (made_first_request b \<longrightarrow> made_first_request b')"
  proof (cases pc)
    case Created
    with assms e show ?thesis by (auto simp: do_burst_def split: if_splits)
  next
    case WaitReady
    with assms w [of "b\<lparr>new_headers := False\<rparr>"] show ?thesis
      by (auto simp: do_burst_def in_lock_def split: if_splits)
  next
    case Yielded
    with assms d s show ?thesis
      by (auto simp: do_burst_def after_yield_def in_lock_def split: if_splits)
  next
    case WaitHeaders
    with assms s show ?thesis by (auto simp: do_burst_def in_lock_def split: if_splits)
  next
    case (Sleeping t)
    with assms d show ?thesis by (auto simp: do_burst_def in_lock_def split: if_splits)
  qed (use assms in \<open>simp_all add: do_burst_def\<close>)
  then show "burst_tasks b' = burst_tasks b" and "pc = Created \<or> in_lock pc"
    and "pc = Created \<Longrightarrow> \<not> lock b" and "pc = Created \<or> lock b \<Longrightarrow> lock b' = in_lock pc'"
    and "made_first_request b \<Longrightarrow> made_first_request b'"
    by simp_all
  show "pc = Created \<Longrightarrow> lock b' \<Longrightarrow> made_first_request b'"
    using assms e by (auto simp: do_burst_def split: if_splits)
qed

lemma live_cases: "live pc \<Longrightarrow> pc = Created \<or> in_lock pc"
  by (cases pc) (simp_all add: live_def in_lock_def)

lemma holders_pos:
  "t < length (burst_tasks b) \<Longrightarrow> burst_tasks b ! t = (pc, c) \<Longrightarrow> in_lock pc \<Longrightarrow> 0 < holders b"
proof -
  assume "t < length (burst_tasks b)" and "burst_tasks b ! t = (pc, c)" and "in_lock pc"
  then have "(pc, c) \<in> set (filter (\<lambda>(pc, c). in_lock pc) (burst_tasks b))"
    using nth_mem [of t "burst_tasks b"] by simp
  then show ?thesis unfolding holders_def by (cases "filter (\<lambda>(pc, c). in_lock pc) (burst_tasks b)") auto
qed

lemma request_unlocked:
  "holders (snd (request req b)) = holders b"
  "lock (snd (request req b)) = lock b"
  "made_first_request (snd (request req b)) = made_first_request b"
  by (simp_all add: holders_def request_def Let_def in_lock_def)

lemma request_serialised: "serialised b \<Longrightarrow> serialised (snd (request req b))"
  unfolding serialised_def request_unlocked .

lemma cancel_serialised: "serialised b \<Longrightarrow> serialised (cancel t b)"
proof -
  assume s: "serialised b"
  show ?thesis
  proof (cases "t < length (burst_tasks b) \<and> live (fst (burst_tasks b ! t))")
    case False
    then have "cancel t b = b" by (auto simp: cancel_def)
    with s show ?thesis by simp
  next
    case True
    obtain pc c where bt: "burst_tasks b ! t = (pc, c)" by (cases "burst_tasks b ! t")
    from True holders_update [OF _ bt refl, of pc True] have "holders (cancel t b) = holders b"
      by (simp add: cancel_def bt)
    with s True show ?thesis by (simp add: serialised_def cancel_def)
  qed
qed

lemma resume_request_unlocked:
  "holders (resume_request t req fut (b, pc)) = holders b"
  "lock (resume_request t req fut (b, pc)) = lock b"
  "made_first_request (resume_request t req fut (b, pc)) = made_first_request b"
  by (simp_all add: holders_def resume_request_def set_result_def Let_def)

lemma resume_request_serialised: "serialised (fst x) \<Longrightarrow> serialised (resume_request t req fut x)"
  by (cases x) (simp add: serialised_def resume_request_unlocked)

lemma step_serialised: "step ev b = Some b' \<Longrightarrow> serialised b \<Longrightarrow> serialised b'"
proof -
  assume a: "step ev b = Some b'" and s: "serialised b"
  show "serialised b'"
  proof (cases ev)
    case (Submit r)
    with a request_serialised [OF s, of "Wrapped r"] show ?thesis by (auto simp: step_def)
  next
    case (RunBurst t now)
    with a have t: "t < length (burst_tasks b)"
      by (auto simp: step_def split: if_splits)
    obtain pc c where bt: "burst_tasks b ! t = (pc, c)" by (cases "burst_tasks b ! t")
    from a RunBurst t bt have lv: "live pc" by (auto simp: step_def split: if_splits)
    show ?thesis
    proof (cases c)
      case True
      show ?thesis
      proof (cases "pc = Created")
        case Created: True
        with a RunBurst t bt lv \<open>c\<close> have b': "b' = b\<lparr>burst_tasks := (burst_tasks b)[t := (Cancelled, c)]\<rparr>"
          by (auto simp: step_def cancelled_error_def)
        from holders_update [OF t bt refl, of Cancelled c] Created
        have "holders b' = holders b" by (simp add: b' in_lock_def)
        with s b' show ?thesis by (simp add: serialised_def)
      next
        case False
        with lv have il: "in_lock pc" by (auto dest: live_cases)
        from a RunBurst t bt lv \<open>c\<close> False
        have b': "b' = b\<lparr>lock := False, burst_tasks := (burst_tasks b)[t := (Cancelled, c)]\<rparr>"
          by (auto simp: step_def cancelled_error_def)
        from holders_update [OF t bt, of "b\<lparr>lock := False\<rparr>" Cancelled c] il
        have "holders b' + 1 = holders b" by (simp add: b' in_lock_def)
        with s b' show ?thesis by (auto simp: serialised_def split: if_splits)
      qed
    next
      case False
      with a RunBurst t bt lv obtain b1 pc1 where d: "do_burst now pc b = Some (b1, pc1)"
        and b': "b' = b1\<lparr>burst_tasks := (burst_tasks b1)[t := (pc1, c)]\<rparr>"
        by (auto simp: step_def split: if_splits option.splits)
      note eff = do_burst_effect [OF d]
      from holders_update [OF t bt eff(1), of pc1 c]
      have h: "holders b' + (if in_lock pc then 1 else 0) = holders b + (if in_lock pc1 then 1 else 0)"
        by (simp add: b')
      have lk: "lock b' = lock b1" and mf: "made_first_request b' = made_first_request b1"
        by (simp_all add: b')
      show ?thesis
      proof (cases "pc = Created")
        case True
        then have "\<not> in_lock pc" by (simp add: in_lock_def)
        with h eff(3) [OF True] eff(4) eff(6) [OF True] True s lk mf show ?thesis
          by (auto simp: serialised_def split: if_splits)
      next
        case False
        with eff(2) have il: "in_lock pc" by simp
        with holders_pos [OF t bt] s have l: "lock b" by (auto simp: serialised_def split: if_splits)
        with s have "made_first_request b" by (simp add: serialised_def)
        with eff(5) have "made_first_request b1" by simp
        with h il l s eff(4) lk mf show ?thesis
          by (auto simp: serialised_def split: if_splits)
      qed
    qed
  next
    case (Response t resp)
    have 1: "serialised (fst (request_429 resp b))"
      using s by (auto simp: request_429_def Let_def cancel_serialised split: option.splits)
    have "holders (fst (request_headers resp b)) = holders b"
      "lock (fst (request_headers resp b)) = lock b"
      "made_first_request (fst (request_headers resp b)) = made_first_request b"
      by (simp_all add: request_headers_def Let_def holders_def split: option.splits)
    with s have 2: "serialised (fst (request_headers resp b))"
      by (simp add: serialised_def)
    have 3: "serialised (resume_request t' req fut (b, pc))" for t' req fut pc
      using s by (simp add: resume_request_serialised)
    from a Response 1 2 show ?thesis
      by (auto simp: step_def 3 split: if_splits prod.splits request_fn.splits request_pc.splits
          intro: resume_request_serialised)
  next
    case (Text t now)
    have "serialised (fst (request_retry r resp now b))" for r resp
    proof (cases "body resp")
      case NotJson
      with s show ?thesis by (simp add: request_retry_def)
    next
      case (Json ra)
      show ?thesis
      proof (cases ra)
        case None
        have "holders (b\<lparr>remaining := Fin 0\<rparr>) = holders b" by (simp add: holders_def)
        with s Json None show ?thesis by (simp add: request_retry_def serialised_def)
      next
        case (Some ms)
        let ?b = "b\<lparr>remaining := Fin 0, reset := Fin (now + ms / 1000), new_headers := True\<rparr>"
        have "holders ?b = holders b" by (simp add: holders_def)
        with s have "serialised ?b" by (simp add: serialised_def)
        from request_serialised [OF this, of "Raw r"] Json Some show ?thesis
          by (auto simp: request_retry_def Let_def split: prod.splits)
      qed
    qed
    with a Text show ?thesis
      by (auto simp: step_def split: if_splits prod.splits request_fn.splits request_pc.splits
          intro: resume_request_serialised)
  next
    case (Retried t)
    have 3: "serialised (resume_request t' req fut (b, pc))" for t' req fut pc
      using s by (simp add: resume_request_serialised)
    with a Retried show ?thesis
      by (auto simp: step_def split: if_splits prod.splits request_pc.splits)
  qed
qed

lemma run_serialised: "run evs b = Some b' \<Longrightarrow> serialised b \<Longrightarrow> serialised b'"
  by (induction evs arbitrary: b) (auto split: option.splits dest: step_serialised)

lemma init_serialised: "serialised Ratelimiter_init"
  by (simp add: serialised_def holders_def Ratelimiter_init_def)

section \<open>Rate limiter: cold start, drain loop, burst tasks, 429\<close>

lemmas bucket_eval = Ratelimiter_init_def step_def request_def burst_run_once_def leave_def
  raise_in_lock_def while_queue_def dispatch_one_def sleep_until_reset_def after_yield_def
  enter_def do_burst_def live_def cancelled_error_def cancel_def set_result_def request_429_def
  request_retry_def request_headers_def finished_def resume_request_def reset_after_def
  ready_def exhausted_def decrement_def wake_time_def elapsed_def dispatched_def Let_def

theorem bucket_fifo_witness:
  "run [Submit 0, Submit 1, Submit 2, RunBurst 0 100, RunBurst 1 100,
        Response 0 \<lparr>status = 200, x_ratelimit_limit = Some 5, x_ratelimit_remaining = Some 4,
                     x_ratelimit_reset = Some 110, body = NotJson\<rparr>,
        RunBurst 1 101, RunBurst 1 102] Ratelimiter_init
     = Some \<lparr>limit = Fin 5, remaining = Fin 3, reset = Fin 110, lock = True, new_headers = False,
         queue = [(Wrapped 2, 2)], tasks = [1], current_burst_task = None,
         made_first_request = True,
         burst_tasks = [(Finished, False), (Yielded, False), (Created, False)],
         request_tasks = [(Wrapped 0, 0, Done), (Wrapped 1, 1, AwaitResponse)],
         futures = [True, False, False],
         submitted = [(Wrapped 0, 0), (Wrapped 1, 1), (Wrapped 2, 2)]\<rparr> \<and>
   [(Wrapped 0, 0), (Wrapped 1, 1)] @ [(Wrapped 2, 2)]
     = [(Wrapped 0, 0 :: nat), (Wrapped 1, 1), (Wrapped 2, 2)]"
  using bucket_fifo [of "[Submit 0, Submit 1, Submit 2, RunBurst 0 100, RunBurst 1 100,
        Response 0 \<lparr>status = 200, x_ratelimit_limit = Some 5, x_ratelimit_remaining = Some 4,
                     x_ratelimit_reset = Some 110, body = NotJson\<rparr>,
        RunBurst 1 101, RunBurst 1 102]"
      "\<lparr>limit = Fin 5, remaining = Fin 3, reset = Fin 110, lock = True, new_headers = False,
         queue = [(Wrapped 2, 2)], tasks = [1], current_burst_task = None,
         made_first_request = True,
         burst_tasks = [(Finished, False), (Yielded, False), (Created, False)],
         request_tasks = [(Wrapped 0, 0, Done), (Wrapped 1, 1, AwaitResponse)],
         futures = [True, False, False],
         submitted = [(Wrapped 0, 0), (Wrapped 1, 1), (Wrapped 2, 2)]\<rparr>"]
  by (simp add: bucket_eval)

text \<open>
  C4.  While \<open>made_first_request\<close> is false, a submission creates a \<open>do_burst\<close>
  task, and such a task, resumed with a non-empty queue, ends in that same resumption: it
  dispatches the head of the queue only, leaves the rest queued, sets
  \<open>made_first_request\<close>, changes none of limit, remaining, reset and the header event,
  and has released the lock.
\<close>

theorem cold_start_dispatch:
  assumes "run evs Ratelimiter_init = Some b" and "\<not> made_first_request b"
  shows "burst_tasks (snd (request req b)) = burst_tasks b @ [(Created, False)] \<and>
         queue (snd (request req b)) = queue b @ [(req, fst (request req b))] \<and>
         (t < length (burst_tasks b) \<and> burst_tasks b ! t = (Created, False) \<and>
          queue b = (r, f) # rest \<longrightarrow>
            (\<exists>b2. step (RunBurst t now) b = Some b2 \<and>
                  burst_tasks b2 = (burst_tasks b)[t := (Finished, False)] \<and>
                  dispatched b2 = dispatched b @ [(r, f)] \<and>
                  queue b2 = rest \<and>
                  made_first_request b2 \<and>
                  limit b2 = limit b \<and> remaining b2 = remaining b \<and> reset b2 = reset b \<and>
                  new_headers b2 = new_headers b \<and>
                  \<not> lock b2 \<and> current_burst_task b2 = None))"
proof -
  from run_serialised [OF assms(1) init_serialised] assms(2) have nl: "\<not> lock b"
    by (auto simp: serialised_def)
  have 1: "burst_tasks (snd (request req b)) = burst_tasks b @ [(Created, False)] \<and>
         queue (snd (request req b)) = queue b @ [(req, fst (request req b))]"
    using assms(2) by (simp add: request_def Let_def)
  have 2: "t < length (burst_tasks b) \<and> burst_tasks b ! t = (Created, False) \<and>
          queue b = (r, f) # rest \<longrightarrow>
            (\<exists>b2. step (RunBurst t now) b = Some b2 \<and>
                  burst_tasks b2 = (burst_tasks b)[t := (Finished, False)] \<and>
                  dispatched b2 = dispatched b @ [(r, f)] \<and>
                  queue b2 = rest \<and>
                  made_first_request b2 \<and>
                  limit b2 = limit b \<and> remaining b2 = remaining b \<and> reset b2 = reset b \<and>
                  new_headers b2 = new_headers b \<and>
                  \<not> lock b2 \<and> current_burst_task b2 = None)"
    using assms(2) nl
    by (simp add: step_def live_def do_burst_def enter_def burst_run_once_def leave_def
        dispatched_def)
  from 1 2 show ?thesis by simp
qed

theorem cold_start_dispatch_witness:
  "run [Submit 7, Submit 8] Ratelimiter_init
     = Some \<lparr>limit = PosInf, remaining = PosInf, reset = PosInf, lock = False,
         new_headers = False, queue = [(Wrapped 7, 0), (Wrapped 8, 1)], tasks = [],
         current_burst_task = None, made_first_request = False,
         burst_tasks = [(Created, False), (Created, False)], request_tasks = [], futures = [False, False],
         submitted = [(Wrapped 7, 0), (Wrapped 8, 1)]\<rparr> \<and>
   map_option (\<lambda>b. (burst_tasks b, dispatched b, queue b, made_first_request b, remaining b))
     (run [Submit 7, Submit 8, RunBurst 0 100] Ratelimiter_init)
     = Some ([(Finished, False), (Created, False)], [(Wrapped 7, 0)], [(Wrapped 8, 1)], True, PosInf)"
  using cold_start_dispatch [of "[Submit 7, Submit 8]"
      "\<lparr>limit = PosInf, remaining = PosInf, reset = PosInf, lock = False,
         new_headers = False, queue = [(Wrapped 7, 0), (Wrapped 8, 1)], tasks = [],
         current_burst_task = None, made_first_request = False,
         burst_tasks = [(Created, False), (Created, False)], request_tasks = [], futures = [False, False],
         submitted = [(Wrapped 7, 0), (Wrapped 8, 1)]\<rparr>" "Wrapped 9" 0 "Wrapped 7" 0 "[(Wrapped 8, 1)]" 100]
  by (simp add: bucket_eval)

text \<open>
  C6 as stated fails.  The first response says Limit 1, Remaining 0, Reset 110; the drainer
  of the second request finds remaining 0, passes \<open>wait_for_headers\<close> on the event the
  first response set, sleeps until 110, and then decrements remaining to -1 and dispatches.
\<close>

theorem remaining_below_zero_counterexample:
  "map_option remaining
     (run [Submit 0, RunBurst 0 100,
           Response 0 \<lparr>status = 200, x_ratelimit_limit = Some 1, x_ratelimit_remaining = Some 0,
                        x_ratelimit_reset = Some 110, body = NotJson\<rparr>,
           Submit 1, RunBurst 1 101, RunBurst 1 101, RunBurst 1 110] Ratelimiter_init)
     = Some (Fin (- 1))"
  by (simp add: bucket_eval)

text \<open>
  C6 (as amended).  One resumption of an uncancelled drainer: at the test with
  remaining \<open>\<le> 0\<close> it dispatches nothing, leaves remaining as it is, and goes on to wait
  for headers, or to sleep if the header event is already set; from the wait it goes on
  only once the event is set, and then sleeps; the sleep ends no earlier than its wake-up
  time, which is no earlier than the reset time; every dispatch, after the sleep or at a
  test with remaining \<open>> 0\<close>, follows a decrement of remaining by one, and after a test
  with remaining \<open>> 0\<close> the decremented value is not negative.
\<close>

theorem drainer_waits_when_exhausted:
  assumes "t < length (burst_tasks b)" and "burst_tasks b ! t = (pc, False)"
    and "step (RunBurst t now) b = Some b'"
  shows "(pc = Yielded \<and> exhausted (remaining b) \<longrightarrow>
            dispatched b' = dispatched b \<and> queue b' = queue b \<and> remaining b' = remaining b \<and>
            burst_tasks b' ! t = (if new_headers b then Sleeping (wake_time now (reset_after now b))
                                  else WaitHeaders, False)) \<and>
         (pc = WaitHeaders \<longrightarrow>
            new_headers b \<and>
            dispatched b' = dispatched b \<and> queue b' = queue b \<and> remaining b' = remaining b \<and>
            burst_tasks b' ! t = (Sleeping (wake_time now (reset_after now b)), False)) \<and>
         (pc = Sleeping wake \<longrightarrow> elapsed wake now \<and> remaining b' = decrement (remaining b)) \<and>
         (pc = Yielded \<and> \<not> exhausted (remaining b) \<longrightarrow>
            remaining b' = decrement (remaining b) \<and> (\<forall>n. remaining b' = Fin n \<longrightarrow> 0 \<le> n)) \<and>
         ((pc = Sleeping wake \<or> pc = Yielded \<and> \<not> exhausted (remaining b)) \<and>
          queue b = (r, f) # rest \<longrightarrow>
            dispatched b' = dispatched b @ [(r, f)] \<and> queue b' = rest) \<and>
         (reset b = Fin due \<longrightarrow> wake_time now (reset_after now b) = Fin (max now due))"
proof -
  have w: "reset b = Fin due \<longrightarrow> wake_time now (reset_after now b) = Fin (max now due)"
    by (auto simp: wake_time_def reset_after_def max_def)
  have d: "dispatch_one b = (b1, pc1) \<Longrightarrow>
      remaining b1 = decrement (remaining b) \<and>
      (queue b = (r, f) # rest \<longrightarrow> dispatched b1 = dispatched b @ [(r, f)] \<and> queue b1 = rest)"
    for b1 pc1
    by (auto simp: dispatch_one_def Let_def burst_run_once_def raise_in_lock_def while_queue_def
        leave_def dispatched_def split: list.splits if_splits)
  have n: "\<not> exhausted (remaining b) \<Longrightarrow> \<forall>n. decrement (remaining b) = Fin n \<longrightarrow> 0 \<le> n"
    by (auto simp: exhausted_def decrement_def split: ext.splits)
  from assms obtain b1 pc1 where db: "do_burst now pc b = Some (b1, pc1)"
    and b': "b' = b1\<lparr>burst_tasks := (burst_tasks b1)[t := (pc1, False)]\<rparr>"
    by (auto simp: step_def split: if_splits option.splits)
  from do_burst_effect(1) [OF db] assms(1) have len: "t < length (burst_tasks b1)" by simp
  have obs: "dispatched b' = dispatched b1" "queue b' = queue b1" "remaining b' = remaining b1"
    "burst_tasks b' ! t = (pc1, False)"
    using len by (simp_all add: b' dispatched_def)
  show ?thesis
  proof (cases pc)
    case Yielded
    show ?thesis
    proof (cases "exhausted (remaining b)")
      case True
      with db Yielded have "b1 = (if new_headers b then b\<lparr>new_headers := False\<rparr> else b)"
        and "pc1 = (if new_headers b then Sleeping (wake_time now (reset_after now b)) else WaitHeaders)"
        by (auto simp: do_burst_def after_yield_def sleep_until_reset_def Let_def reset_after_def
            split: if_splits)
      with Yielded True w obs show ?thesis by (simp add: dispatched_def)
    next
      case False
      with db Yielded have "dispatch_one b = (b1, pc1)"
        by (simp add: do_burst_def after_yield_def)
      from d [OF this] n [OF False] Yielded False w obs show ?thesis by simp
    qed
  next
    case WaitHeaders
    with db have "new_headers b" and "b1 = b\<lparr>new_headers := False\<rparr>"
      and "pc1 = Sleeping (wake_time now (reset_after now b))"
      by (auto simp: do_burst_def sleep_until_reset_def Let_def reset_after_def split: if_splits)
    with WaitHeaders w obs show ?thesis by (simp add: dispatched_def)
  next
    case (Sleeping x)
    with db have e: "elapsed x now" and "dispatch_one b = (b1, pc1)"
      by (auto simp: do_burst_def split: if_splits)
    from d [OF this(2)] e Sleeping w obs show ?thesis by auto
  qed (use w in simp_all)
qed

theorem drainer_waits_when_exhausted_witness:
  "(1 :: nat) < length [(Finished, False), (Yielded, False)] \<and>
   map_option (\<lambda>b. (burst_tasks b, remaining b, dispatched b, queue b))
     (step (RunBurst 1 101)
        \<lparr>limit = Fin 1, remaining = Fin 0, reset = Fin 110, lock = True, new_headers = True,
           queue = [(Wrapped 1, 1)], tasks = [], current_burst_task = Some 1,
           made_first_request = True, burst_tasks = [(Finished, False), (Yielded, False)],
           request_tasks = [(Wrapped 0, 0, Done)], futures = [True, False],
           submitted = [(Wrapped 0, 0), (Wrapped 1, 1)]\<rparr>)
     = Some ([(Finished, False), (Sleeping (Fin 110), False)], Fin 0, [(Wrapped 0, 0)],
             [(Wrapped 1, 1)]) \<and>
   step (RunBurst 1 109)
        \<lparr>limit = Fin 1, remaining = Fin 0, reset = Fin 110, lock = True, new_headers = False,
           queue = [(Wrapped 1, 1)], tasks = [], current_burst_task = Some 1,
           made_first_request = True, burst_tasks = [(Finished, False), (Sleeping (Fin 110), False)],
           request_tasks = [(Wrapped 0, 0, Done)], futures = [True, False],
           submitted = [(Wrapped 0, 0), (Wrapped 1, 1)]\<rparr> = None \<and>
   map_option (\<lambda>b. (burst_tasks b, remaining b, dispatched b, queue b))
     (step (RunBurst 1 110)
        \<lparr>limit = Fin 1, remaining = Fin 0, reset = Fin 110, lock = True, new_headers = False,
           queue = [(Wrapped 1, 1)], tasks = [], current_burst_task = Some 1,
           made_first_request = True, burst_tasks = [(Finished, False), (Sleeping (Fin 110), False)],
           request_tasks = [(Wrapped 0, 0, Done)], futures = [True, False],
           submitted = [(Wrapped 0, 0), (Wrapped 1, 1)]\<rparr>)
     = Some ([(Finished, False), (Finished, False)], Fin (- 1), [(Wrapped 0, 0), (Wrapped 1, 1)], [])"
proof -
  let ?b = "\<lparr>limit = Fin 1, remaining = Fin 0, reset = Fin 110, lock = True, new_headers = True,
           queue = [(Wrapped 1, 1)], tasks = [], current_burst_task = Some 1,
           made_first_request = True, burst_tasks = [(Finished, False), (Yielded, False)],
           request_tasks = [(Wrapped 0, 0, Done)], futures = [True, False],
           submitted = [(Wrapped 0, 0), (Wrapped 1, 1)]\<rparr>"
  let ?b1 = "?b\<lparr>new_headers := False,
           burst_tasks := [(Finished, False), (Sleeping (Fin 110), False)]\<rparr>"
  let ?b2 = "?b1\<lparr>remaining := Fin (- 1), queue := [], tasks := [1], current_burst_task := None,
           lock := False, burst_tasks := [(Finished, False), (Finished, False)],
           request_tasks := [(Wrapped 0, 0, Done), (Wrapped 1, 1, AwaitResponse)]\<rparr>"
  have s1: "step (RunBurst 1 101) ?b = Some ?b1" by (simp add: bucket_eval)
  have s2: "step (RunBurst 1 110) ?b1 = Some ?b2" by (simp add: bucket_eval)
  have s3: "step (RunBurst 1 109) ?b1 = None" by (simp add: bucket_eval)
  from drainer_waits_when_exhausted [of 1 ?b Yielded 101 ?b1, OF _ _ s1]
  have w1: "burst_tasks ?b1 ! 1 = (Sleeping (wake_time 101 (reset_after 101 ?b)), False)"
    by (simp add: exhausted_def)
  from drainer_waits_when_exhausted [of 1 ?b1 "Sleeping (Fin 110)" 110 ?b2 "Fin 110", OF _ _ s2]
  have w2: "remaining ?b2 = decrement (remaining ?b1)" by simp
  from s1 s2 s3 w1 w2 show ?thesis by (simp add: dispatched_def)
qed

text \<open>
  C7 as stated fails.  Two submissions to a fresh bucket create two \<open>do_burst\<close> tasks.
  The first dispatches and ends; the second takes the lock and waits for headers, and is
  not recorded in \<open>current_burst_task\<close>; a third submission then creates a third task
  while the second is still inside the lock.
\<close>

theorem burst_spawned_while_running_counterexample:
  "map_option (\<lambda>b. (burst_tasks b, lock b, current_burst_task b))
     (run [Submit 0, Submit 1, RunBurst 0 100, RunBurst 1 100] Ratelimiter_init)
     = Some ([(Finished, False), (WaitReady, False)], True, None) \<and>
   map_option (\<lambda>b. (burst_tasks b, lock b, current_burst_task b))
     (run [Submit 0, Submit 1, RunBurst 0 100, RunBurst 1 100, Submit 2] Ratelimiter_init)
     = Some ([(Finished, False), (WaitReady, False), (Created, False)], True, Some 2)"
  by (simp add: bucket_eval)

text \<open>
  C7 (as amended).  In every reachable state at most one \<open>do_burst\<close> task is inside
  the lock.  \<open>request\<close> creates a \<open>do_burst\<close> task on every call while
  \<open>made_first_request\<close> is false; once it is true, it creates one only when
  \<open>current_burst_task\<close> is None, and records it there.
\<close>

theorem burst_spawn_policy:
  assumes "run evs Ratelimiter_init = Some b"
  shows "holders b \<le> 1 \<and>
         (\<not> made_first_request b \<longrightarrow>
            burst_tasks (snd (request req b)) = burst_tasks b @ [(Created, False)] \<and>
            current_burst_task (snd (request req b)) = current_burst_task b) \<and>
         (made_first_request b \<and> current_burst_task b = None \<longrightarrow>
            burst_tasks (snd (request req b)) = burst_tasks b @ [(Created, False)] \<and>
            current_burst_task (snd (request req b)) = Some (length (burst_tasks b))) \<and>
         (made_first_request b \<and> current_burst_task b \<noteq> None \<longrightarrow>
            burst_tasks (snd (request req b)) = burst_tasks b \<and>
            current_burst_task (snd (request req b)) = current_burst_task b)"
proof -
  from run_serialised [OF assms init_serialised] have "holders b \<le> 1"
    by (simp add: serialised_def split: if_splits)
  then show ?thesis by (simp add: request_def Let_def)
qed

theorem burst_spawn_policy_witness:
  "run [Submit 0, Submit 1, RunBurst 0 100, RunBurst 1 100] Ratelimiter_init
     = Some \<lparr>limit = PosInf, remaining = PosInf, reset = PosInf, lock = True,
         new_headers = False, queue = [(Wrapped 1, 1)], tasks = [0],
         current_burst_task = None, made_first_request = True,
         burst_tasks = [(Finished, False), (WaitReady, False)],
         request_tasks = [(Wrapped 0, 0, AwaitResponse)], futures = [False, False],
         submitted = [(Wrapped 0, 0), (Wrapped 1, 1)]\<rparr> \<and>
   holders \<lparr>limit = PosInf, remaining = PosInf, reset = PosInf, lock = True,
         new_headers = False, queue = [(Wrapped 1, 1)], tasks = [0],
         current_burst_task = None, made_first_request = True,
         burst_tasks = [(Finished, False), (WaitReady, False)],
         request_tasks = [(Wrapped 0, 0, AwaitResponse)], futures = [False, False],
         submitted = [(Wrapped 0, 0), (Wrapped 1, 1)]\<rparr> = 1 \<and>
   map_option (\<lambda>b. (burst_tasks b, current_burst_task b))
     (run [Submit 0, Submit 1, RunBurst 0 100, RunBurst 1 100, Submit 2, Submit 3] Ratelimiter_init)
     = Some ([(Finished, False), (WaitReady, False), (Created, False)], Some 2)"
  using burst_spawn_policy [of "[Submit 0, Submit 1, RunBurst 0 100, RunBurst 1 100]"
      "\<lparr>limit = PosInf, remaining = PosInf, reset = PosInf, lock = True,
         new_headers = False, queue = [(Wrapped 1, 1)], tasks = [0],
         current_burst_task = None, made_first_request = True,
         burst_tasks = [(Finished, False), (WaitReady, False)],
         request_tasks = [(Wrapped 0, 0, AwaitResponse)], futures = [False, False],
         submitted = [(Wrapped 0, 0), (Wrapped 1, 1)]\<rparr>" "Wrapped 2"]
  by (simp add: bucket_eval holders_def in_lock_def)



end
